theory Spec2Isabelle
  imports Main "HOL-Library.Char_ord" "HOL-Library.List_Lexorder"
begin

section \<open>Data model of argparser.py\<close>

text \<open>
  Python exceptions that can travel through the parser. \<open>ParsingError\<close> is the module's
  own exception class; \<open>IndexError\<close> is what a list read or write out of range raises;
  \<open>ValueError\<close> is what \<open>max\<close> raises on an empty sequence; \<open>TypeError\<close> is what
  \<open>len(None)\<close> raises; \<open>OtherError\<close> stands for anything else a user-supplied callback
  may raise.
\<close>

datatype exn = ParsingError string | IndexError | ValueError | TypeError | OtherError string

text \<open>
  How a callback is called: \<open>option.callback()\<close> or \<open>option.callback(oarg)\<close>, where
  \<open>oarg\<close> is a string or Python's \<open>None\<close>.
\<close>

datatype call = Call0 | Call1 "string option"

text \<open>
  Class \<open>Option\<close>. The names and the argument specification may be \<open>None\<close>. A callback
  is a callable acting on the integrator's state \<open>'u\<close>; it may raise. \<open>None\<close> as a
  callback is falsy and is never called.
\<close>

record 'u Option =
  short_name :: "string option"
  long_name :: "string option"
  arg :: "string option"
  description :: "string option"
  callback :: "(call \<Rightarrow> 'u \<Rightarrow> exn + 'u) option"
  hidden :: bool

text \<open>Class \<open>Command\<close>, the attributes set by the constructor.\<close>

record 'u Command =
  name :: string
  usage :: "string option"
  manual :: "string option"
  options :: "'u Option list"

text \<open>
  List objects live in a heap, so that \<open>argv.copy()\<close> and the assignment
  \<open>self.argv[i] = ...\<close> are what they are in Python: an allocation and a write through
  a reference. Every address holds a list; the addresses below \<open>fresh\<close> are allocated.
\<close>

type_synonym addr = nat

record pyheap =
  cells :: "addr \<Rightarrow> string list"
  fresh :: addr

definition list_copy :: "pyheap \<Rightarrow> addr \<Rightarrow> addr \<times> pyheap" where
  "list_copy h a = (fresh h, h\<lparr>cells := (cells h)(fresh h := cells h a), fresh := Suc (fresh h)\<rparr>)"

text \<open>
  The attributes \<open>parse\<close> sets on the command object (\<open>operands\<close>, \<open>argv\<close>, \<open>argc\<close>,
  \<open>argv_index\<close>), with the heap and the integrator's state the callbacks act on.
\<close>

record 'u session =
  operands :: "string list"
  argv :: addr
  argc :: nat
  argv_index :: nat
  heap :: pyheap
  ustate :: 'u

definition argv_list :: "'u session \<Rightarrow> string list" where
  "argv_list s = cells (heap s) (argv s)"

section \<open>Python primitives\<close>

text \<open>Truthiness of a value that is \<open>None\<close> or a string.\<close>

fun truthy :: "string option \<Rightarrow> bool" where
  "truthy None = False"
| "truthy (Some s) = (s \<noteq> [])"

text \<open>\<open>s.find(c)\<close> for a one-character \<open>c\<close>: the first index, or \<open>-1\<close>.\<close>

fun str_find :: "string \<Rightarrow> char \<Rightarrow> int" where
  "str_find [] c = -1"
| "str_find (x # xs) c =
     (if x = c then 0 else (let r = str_find xs c in if r = -1 then -1 else r + 1))"

text \<open>\<open>option.arg.startswith("[")\<close>, called on a truthy \<open>option.arg\<close> only.\<close>

fun startswith_bracket :: "string option \<Rightarrow> bool" where
  "startswith_bracket (Some (c # cs)) = (c = CHR ''['')"
| "startswith_bracket _ = False"

section \<open>Command._parse\<close>

text \<open>
  One call of \<open>_parse\<close> returns a Boolean or raises; either way it leaves a session
  behind.
\<close>

datatype 'u step = Return bool "'u session" | Raise exn "'u session"

text \<open>The common tail of \<open>_parse\<close>: \<open>self.argv_index += 1; return True\<close>.\<close>

definition advance :: "'u session \<Rightarrow> 'u step" where
  "advance s = Return True (s\<lparr>argv_index := argv_index s + 1\<rparr>)"

definition append_operand :: "string \<Rightarrow> 'u session \<Rightarrow> 'u session" where
  "append_operand a s = s\<lparr>operands := operands s @ [a]\<rparr>"

text \<open>
  The loop after the end-of-options marker:
  \<^verbatim>\<open>while self.argv_index < self.argc: self.operands.append(self.argv[self.argv_index]); self.argv_index += 1\<close>
\<close>

function end_of_options :: "'u session \<Rightarrow> 'u step" where
  "end_of_options s =
     (if argv_index s < argc s then
        (if argv_index s < length (argv_list s)
         then end_of_options
                ((append_operand (argv_list s ! argv_index s) s)\<lparr>argv_index := argv_index s + 1\<rparr>)
         else Raise IndexError s)
      else Return False s)"
  by pat_completeness auto
termination
  by (relation "measure (\<lambda>s. argc s - argv_index s)") (auto simp: append_operand_def)

declare end_of_options.simps [simp del]

text \<open>
  The call of the callback, shared by the long and the short branch:
  \<^verbatim>\<open>if option.callback: if option.arg: option.callback(oarg) else: option.callback()\<close>
\<close>

definition invoke :: "'u Option \<Rightarrow> string option \<Rightarrow> 'u \<Rightarrow> exn + 'u" where
  "invoke opt oarg u =
     (case callback opt of
        None \<Rightarrow> Inr u
      | Some cb \<Rightarrow> cb (if truthy (arg opt) then Call1 oarg else Call0) u)"

text \<open>
  Taking the following element as a mandatory argument:
  \<^verbatim>\<open>self.argv_index += 1; if self.argv_index > self.argc - 1: raise ...; oarg = self.argv[self.argv_index]\<close>
  The index stays incremented when the error is raised.
\<close>

definition take_next :: "string \<Rightarrow> 'u session \<Rightarrow> (exn \<times> 'u session) + (string option \<times> 'u session)" where
  "take_next msg s =
     (let s1 = s\<lparr>argv_index := argv_index s + 1\<rparr> in
      if int (argv_index s1) > int (argc s1) - 1 then Inl (ParsingError msg, s1)
      else if argv_index s1 < length (argv_list s1)
           then Inr (Some (argv_list s1 ! argv_index s1), s1)
           else Inl (IndexError, s1))"

text \<open>The long-option branch (\<open>arg[1] == "-"\<close>).\<close>

definition split_long :: "string \<Rightarrow> string \<times> string option" where
  "split_long a =
     (let long_name = drop 2 a; oarg_pos = str_find long_name (CHR ''='') in
      if oarg_pos \<noteq> -1
      then (take (nat oarg_pos) long_name, Some (drop (nat (oarg_pos + 1)) long_name))
      else (long_name, None))"

definition long_arg ::
  "'u Option \<Rightarrow> string \<Rightarrow> string option \<Rightarrow> 'u session \<Rightarrow> (exn \<times> 'u session) + (string option \<times> 'u session)" where
  "long_arg opt nm oarg s =
     (if oarg \<noteq> None then
        (if \<not> truthy (arg opt)
         then Inl (ParsingError (''Option --'' @ nm @ '' does not allow an argument.''), s)
         else Inr (oarg, s))
      else if truthy (arg opt) \<and> \<not> startswith_bracket (arg opt)
      then take_next (''Option --'' @ nm @ '' requires an argument.'') s
      else Inr (oarg, s))"

definition long_option :: "'u Command \<Rightarrow> string \<Rightarrow> 'u session \<Rightarrow> 'u step" where
  "long_option cmd a s =
     (case split_long a of (nm, oarg) \<Rightarrow>
        (case find (\<lambda>opt. long_name opt = Some nm) (options cmd) of
           None \<Rightarrow> Raise (ParsingError (''Unknown option: --'' @ nm)) s
         | Some opt \<Rightarrow>
             (case long_arg opt nm oarg s of
                Inl (e, s1) \<Rightarrow> Raise e s1
              | Inr (oarg1, s1) \<Rightarrow>
                  (case invoke opt oarg1 (ustate s1) of
                     Inl e \<Rightarrow> Raise e s1
                   | Inr u \<Rightarrow> advance (s1\<lparr>ustate := u\<rparr>)))))"

text \<open>The short-option branch, with the rewrite of a block such as \<open>-abc\<close>.\<close>

definition short_arg ::
  "'u Option \<Rightarrow> string \<Rightarrow> 'u session \<Rightarrow> (exn \<times> 'u session) + (string option \<times> 'u session)" where
  "short_arg opt a s =
     (if truthy (arg opt) then
        (if length a > 2 then Inr (Some (drop 2 a), s)
         else if \<not> startswith_bracket (arg opt)
         then take_next (''Option -'' @ [a ! 1] @ '' requires an argument.'') s
         else Inr (None, s))
      else Inr (None, s))"

definition rewrite_block :: "string \<Rightarrow> 'u session \<Rightarrow> 'u step" where
  "rewrite_block a s =
     (if argv_index s < length (argv_list s)
      then Return True
             (s\<lparr>heap := (heap s)\<lparr>cells := (cells (heap s))
                  (argv s := (argv_list s)[argv_index s := ''-'' @ drop 2 a])\<rparr>\<rparr>)
      else Raise IndexError s)"

definition short_option :: "'u Command \<Rightarrow> string \<Rightarrow> 'u session \<Rightarrow> 'u step" where
  "short_option cmd a s =
     (case find (\<lambda>opt. short_name opt = Some [a ! 1]) (options cmd) of
        None \<Rightarrow> Raise (ParsingError (''Unknown option: -'' @ [a ! 1])) s
      | Some opt \<Rightarrow>
          (case short_arg opt a s of
             Inl (e, s1) \<Rightarrow> Raise e s1
           | Inr (oarg, s1) \<Rightarrow>
               (case invoke opt oarg (ustate s1) of
                  Inl e \<Rightarrow> Raise e s1
                | Inr u \<Rightarrow>
                    if \<not> truthy oarg \<and> length a > 2 then rewrite_block a (s1\<lparr>ustate := u\<rparr>)
                    else advance (s1\<lparr>ustate := u\<rparr>))))"

text \<open>\<open>Command._parse\<close>: the classification of the element under the cursor.\<close>

definition priv_parse :: "'u Command \<Rightarrow> 'u session \<Rightarrow> 'u step" where
  "priv_parse cmd s =
     (if int (argv_index s) > int (argc s) - 1 then Return False s
      else if \<not> argv_index s < length (argv_list s) then Raise IndexError s
      else
        (let a = argv_list s ! argv_index s; arg_len = length a in
         if arg_len = 0 then advance (append_operand a s)
         else if a = ''--'' then
           end_of_options (s\<lparr>argv_index := argv_index s + 1\<rparr>)
         else if a ! 0 = CHR ''-'' then
           (if arg_len = 1 then advance (append_operand a s)
            else if a ! 1 = CHR ''-'' then long_option cmd a s
            else short_option cmd a s)
         else advance (append_operand a s)))"

section \<open>Command.parse\<close>

text \<open>
  Progress of one call that returns \<open>True\<close>: the cursor moves forward, or it stays and
  the element under it gets shorter (the rewrite of a short-option block).
\<close>

lemma take_next_index:
  "take_next msg s = Inr (oarg, s1) \<Longrightarrow>
     s1 = s\<lparr>argv_index := argv_index s + 1\<rparr> \<and> argv_index s + 1 < argc s"
  by (auto simp: take_next_def Let_def split: if_splits)

lemma long_option_progress:
  assumes "long_option cmd a s = Return True s'" and "argv_index s < argc s"
  shows "argc s' = argc s \<and> argv_index s < argv_index s' \<and> argv_index s' \<le> argc s"
  using assms
  by (auto simp: long_option_def long_arg_def advance_def
           split: prod.splits option.splits sum.splits if_splits
           dest!: take_next_index)

lemma short_arg_index:
  "short_arg opt a s = Inr (oarg, s1) \<Longrightarrow>
     (s1 = s \<and> (truthy oarg \<longleftrightarrow> truthy (arg opt) \<and> length a > 2)) \<or>
     (s1 = s\<lparr>argv_index := argv_index s + 1\<rparr> \<and> argv_index s + 1 < argc s \<and> \<not> length a > 2)"
  by (auto simp: short_arg_def split: if_splits dest!: take_next_index)

lemma short_option_progress:
  assumes "short_option cmd a s = Return True s'" and "argv_index s < argc s"
    and "a = argv_list s ! argv_index s"
  shows "argc s' = argc s \<and>
         (argv_index s < argv_index s' \<and> argv_index s' \<le> argc s \<or>
          argv_index s' = argv_index s \<and>
          length (argv_list s' ! argv_index s') < length (argv_list s ! argv_index s))"
  using assms
  by (auto simp: short_option_def advance_def rewrite_block_def argv_list_def
           split: prod.splits option.splits sum.splits if_splits
           dest!: short_arg_index)

lemma end_of_options_not_True: "end_of_options s \<noteq> Return True s'"
  by (induction s rule: end_of_options.induct) (subst end_of_options.simps, simp)

lemma priv_parse_progress:
  assumes "priv_parse cmd s = Return True s'"
  shows "argc s' = argc s \<and>
         (argv_index s < argv_index s' \<and> argv_index s' \<le> argc s \<or>
          argv_index s' = argv_index s \<and> argv_index s < argc s \<and>
          length (argv_list s' ! argv_index s') < length (argv_list s ! argv_index s))"
proof -
  from assms have lt: "argv_index s < argc s"
    by (auto simp: priv_parse_def split: if_splits)
  show ?thesis
  proof (cases "argv_list s ! argv_index s = ''--''")
    case True
    with assms lt show ?thesis
      by (auto simp: priv_parse_def Let_def end_of_options_not_True split: if_splits)
  next
    case False
    with assms lt show ?thesis
      by (auto simp: priv_parse_def Let_def advance_def append_operand_def
               split: if_splits
               dest: long_option_progress short_option_progress)
  qed
qed

text \<open>
  The loop of \<open>parse\<close>: \<^verbatim>\<open>while self._parse(): pass\<close>. It ends with the step that
  returned \<open>False\<close> or raised.
\<close>

function parse_loop :: "'u Command \<Rightarrow> 'u session \<Rightarrow> 'u step" where
  "parse_loop cmd s =
     (case priv_parse cmd s of
        Return b s' \<Rightarrow> if b then parse_loop cmd s' else Return False s'
      | Raise e s' \<Rightarrow> Raise e s')"
  by pat_completeness auto
termination
proof (relation "measures [\<lambda>(cmd, s). argc s - argv_index s,
                            \<lambda>(cmd, s). length (argv_list s ! argv_index s)]", goal_cases)
  case 1
  show ?case by simp
next
  case (2 cmd s b s')
  then have "priv_parse cmd s = Return True s'" by simp
  from priv_parse_progress [OF this] show ?case by auto
qed

declare parse_loop.simps [simp del]

text \<open>
  What a call of \<open>parse\<close> leaves: its return value or the exception it lets through, the
  text written to \<open>sys.stderr\<close>, and the session (operands, heap, integrator's state).
\<close>

datatype result = Returned bool | Uncaught exn

record 'u parsed =
  result :: result
  stderr :: string
  final :: "'u session"

text \<open>
  The first four statements of \<open>parse\<close>:
  \<^verbatim>\<open>self.operands = []; self.argv = argv.copy(); self.argc = len(argv); self.argv_index = 1\<close>
\<close>

definition initial :: "pyheap \<Rightarrow> addr \<Rightarrow> 'u \<Rightarrow> 'u session" where
  "initial h a u =
     (case list_copy h a of (a', h') \<Rightarrow>
        \<lparr>operands = [], argv = a', argc = length (cells h a), argv_index = 1,
         heap = h', ustate = u\<rparr>)"

text \<open>
  \<open>Command.parse(argv)\<close>, with \<open>argv\<close> a reference to the caller's list. Only
  \<open>ParsingError\<close> is caught; \<open>print(str(e), file=sys.stderr)\<close> writes the message and
  a newline.
\<close>

definition parse :: "'u Command \<Rightarrow> pyheap \<Rightarrow> addr \<Rightarrow> 'u \<Rightarrow> 'u parsed" where
  "parse cmd h a u =
     (case parse_loop cmd (initial h a u) of
        Return b s \<Rightarrow> \<lparr>result = Returned False, stderr = [], final = s\<rparr>
      | Raise (ParsingError m) s \<Rightarrow>
          \<lparr>result = Returned True, stderr = m @ [CHR 0x0A], final = s\<rparr>
      | Raise e s \<Rightarrow> \<lparr>result = Uncaught e, stderr = [], final = s\<rparr>)"

text \<open>A heap that holds the caller's argument list at address 0 and nothing else.\<close>

definition heap_of :: "string list \<Rightarrow> pyheap" where
  "heap_of args = \<lparr>cells = (\<lambda>_. [])(0 := args), fresh = 1\<rparr>"

definition parse_args :: "'u Command \<Rightarrow> string list \<Rightarrow> 'u \<Rightarrow> 'u parsed" where
  "parse_args cmd args u = parse cmd (heap_of args) 0 u"

section \<open>Sessions the scan passes through\<close>

text \<open>
  \<open>scans cmd s s'\<close>: starting from session \<open>s\<close>, the loop of \<open>parse\<close> arrives at
  session \<open>s'\<close> after some calls of \<open>_parse\<close> that all returned \<open>True\<close>. The element
  under the cursor of \<open>s'\<close> is then the next one classified.
\<close>

inductive scans :: "'u Command \<Rightarrow> 'u session \<Rightarrow> 'u session \<Rightarrow> bool" for cmd where
  scans_here: "scans cmd s s"
| scans_next: "priv_parse cmd s = Return True s1 \<Longrightarrow> scans cmd s1 s2 \<Longrightarrow> scans cmd s s2"

lemma scans_parse_loop: "scans cmd s s' \<Longrightarrow> parse_loop cmd s = parse_loop cmd s'"
  by (induction rule: scans.induct) (auto simp: parse_loop.simps [of cmd s for s])

text \<open>The session a call leaves behind, whether it returned or raised.\<close>

fun session_of :: "'u step \<Rightarrow> 'u session" where
  "session_of (Return b s) = s"
| "session_of (Raise e s) = s"

text \<open>
  What holds of every session of a call \<open>parse(argv)\<close> on heap \<open>h\<close> with \<open>argv\<close> at address
  \<open>a\<close>: \<open>self.argv\<close> is the copy, \<open>argc\<close> is its length, the elements after the cursor
  are the caller's, and no list but the copy has been written.
\<close>

definition session_inv :: "pyheap \<Rightarrow> addr \<Rightarrow> 'u session \<Rightarrow> bool" where
  "session_inv h a s \<longleftrightarrow>
     argv s = fresh h \<and> fresh (heap s) = Suc (fresh h) \<and>
     argc s = length (cells h a) \<and> length (argv_list s) = argc s \<and>
     drop (Suc (argv_index s)) (argv_list s) = drop (Suc (argv_index s)) (cells h a) \<and>
     (\<forall>b. b \<noteq> fresh h \<longrightarrow> cells (heap s) b = cells h b)"

lemma session_inv_initial: "session_inv h a (initial h a u)"
  by (simp add: session_inv_def initial_def list_copy_def argv_list_def)

lemma end_of_options_eq:
  "argv_index s \<le> argc s \<Longrightarrow> argc s = length (argv_list s) \<Longrightarrow>
   end_of_options s =
     Return False (s\<lparr>operands := operands s @ drop (argv_index s) (argv_list s),
                     argv_index := argc s\<rparr>)"
proof (induction s rule: end_of_options.induct)
  case (1 s)
  show ?case
  proof (cases "argv_index s < argc s")
    case True
    let ?s1 = "(append_operand (argv_list s ! argv_index s) s)\<lparr>argv_index := argv_index s + 1\<rparr>"
    have al: "argv_list ?s1 = argv_list s"
      by (simp add: argv_list_def append_operand_def)
    have "end_of_options s = end_of_options ?s1"
      using True "1.prems" by (subst end_of_options.simps) simp
    also have "\<dots> = Return False (?s1\<lparr>operands := operands ?s1 @ drop (argv_index ?s1) (argv_list ?s1),
                     argv_index := argc ?s1\<rparr>)"
      using True "1.prems" al by (intro "1.IH") (auto simp: append_operand_def)
    also have "\<dots> = Return False (s\<lparr>operands := operands s @ drop (argv_index s) (argv_list s),
                     argv_index := argc s\<rparr>)"
      using True "1.prems" al
      by (simp add: append_operand_def Cons_nth_drop_Suc [symmetric])
    finally show ?thesis .
  next
    case False
    with "1.prems" show ?thesis
      by (subst end_of_options.simps) simp
  qed
qed


lemma drop_Suc_cong: "drop n xs = drop n ys \<Longrightarrow> drop (Suc n) xs = drop (Suc n) ys"
  by (metis drop_Suc tl_drop)

lemma session_inv_advance:
  "session_inv h a s \<Longrightarrow> session_inv h a (session_of (advance s))"
  by (auto simp: session_inv_def advance_def argv_list_def dest: drop_Suc_cong)

lemma session_inv_append_operand:
  "session_inv h a s \<Longrightarrow> session_inv h a (append_operand x s)"
  by (auto simp: session_inv_def append_operand_def argv_list_def)

lemma session_inv_ustate:
  "session_inv h a s \<Longrightarrow> session_inv h a (s\<lparr>ustate := u\<rparr>)"
  by (auto simp: session_inv_def argv_list_def)

lemma session_inv_take_next:
  "session_inv h a s \<Longrightarrow> take_next msg s = Inl (e, s1) \<or> take_next msg s = Inr (oarg, s1) \<Longrightarrow>
     session_inv h a s1"
  by (auto simp: take_next_def Let_def session_inv_def argv_list_def split: if_splits
           dest: drop_Suc_cong)

lemma session_inv_rewrite_block:
  "session_inv h a s \<Longrightarrow> session_inv h a (session_of (rewrite_block x s))"
  by (auto simp: rewrite_block_def session_inv_def argv_list_def)

lemma session_inv_long_arg:
  "session_inv h a s \<Longrightarrow>
     long_arg opt nm oarg s = Inl (e, s1) \<or> long_arg opt nm oarg s = Inr (oarg1, s1) \<Longrightarrow>
     session_inv h a s1"
  by (auto simp: long_arg_def split: if_splits intro: session_inv_take_next)

lemma session_inv_short_arg:
  "session_inv h a s \<Longrightarrow>
     short_arg opt x s = Inl (e, s1) \<or> short_arg opt x s = Inr (oarg1, s1) \<Longrightarrow>
     session_inv h a s1"
  by (auto simp: short_arg_def split: if_splits intro: session_inv_take_next)

lemma session_inv_long_option:
  assumes "session_inv h a s"
  shows "session_inv h a (session_of (long_option cmd x s))"
  using assms
  by (auto simp: long_option_def split: prod.splits option.splits sum.splits
           intro!: session_inv_advance session_inv_ustate
           intro: session_inv_long_arg)

lemma session_inv_short_option:
  assumes "session_inv h a s"
  shows "session_inv h a (session_of (short_option cmd x s))"
  using assms
  by (auto simp: short_option_def split: prod.splits option.splits sum.splits
           intro!: session_inv_advance session_inv_rewrite_block session_inv_ustate
           intro: session_inv_short_arg)

lemma session_inv_end_of_options:
  "session_inv h a s \<Longrightarrow> session_inv h a (session_of (end_of_options s))"
proof (induction s rule: end_of_options.induct)
  case (1 s)
  show ?case
  proof (cases "argv_index s < argc s \<and> argv_index s < length (argv_list s)")
    case True
    let ?s1 = "(append_operand (argv_list s ! argv_index s) s)\<lparr>argv_index := argv_index s + 1\<rparr>"
    have "session_inv h a ?s1"
      using "1.prems" by (auto simp: session_inv_def append_operand_def argv_list_def dest: drop_Suc_cong)
    with True "1.IH" have "session_inv h a (session_of (end_of_options ?s1))" by simp
    with True show ?thesis by (subst end_of_options.simps) simp
  next
    case False
    with "1.prems" show ?thesis by (subst end_of_options.simps) auto
  qed
qed

lemma session_inv_priv_parse:
  assumes "session_inv h a s"
  shows "session_inv h a (session_of (priv_parse cmd s))"
proof -
  have 1: "session_inv h a (s\<lparr>argv_index := argv_index s + 1\<rparr>)"
    using session_inv_advance [OF assms] by (simp add: advance_def)
  show ?thesis
    using assms session_inv_end_of_options [OF 1]
    by (auto simp: priv_parse_def Let_def
             intro!: session_inv_advance session_inv_append_operand
                    session_inv_long_option session_inv_short_option)
qed

lemma session_inv_parse_loop:
  "session_inv h a s \<Longrightarrow> session_inv h a (session_of (parse_loop cmd s))"
proof (induction cmd s rule: parse_loop.induct)
  case (1 cmd s)
  from session_inv_priv_parse [OF "1.prems", of cmd] "1.IH" show ?case
    by (subst parse_loop.simps) (auto split: step.splits)
qed

lemma session_inv_scans:
  "scans cmd s s' \<Longrightarrow> session_inv h a s \<Longrightarrow> session_inv h a s'"
proof (induction rule: scans.induct)
  case (scans_here s)
  then show ?case .
next
  case (scans_next s s1 s2)
  from session_inv_priv_parse [OF scans_next.prems, of cmd] scans_next show ?case by simp
qed


section \<open>A command for concrete runs\<close>

text \<open>
  A command with two flags, an option with a mandatory argument and a hidden option with an
  optional argument. The integrator's state is the list of the calls made so far: every
  callback appends its option's letter and the way it was called.
\<close>

definition record_call ::
  "string \<Rightarrow> (call \<Rightarrow> (string \<times> call) list \<Rightarrow> exn + (string \<times> call) list) option" where
  "record_call n = Some (\<lambda>c u. Inr (u @ [(n, c)]))"

definition opt_all :: "(string \<times> call) list Option" where
  "opt_all = \<lparr>short_name = Some ''a'', long_name = Some ''all'', arg = None,
              description = Some ''Select all.'', callback = record_call ''a'', hidden = False\<rparr>"

definition opt_brief :: "(string \<times> call) list Option" where
  "opt_brief = \<lparr>short_name = Some ''b'', long_name = None, arg = None,
                description = Some ''Be brief.'', callback = record_call ''b'', hidden = False\<rparr>"

definition opt_config :: "(string \<times> call) list Option" where
  "opt_config = \<lparr>short_name = Some ''c'', long_name = Some ''config'', arg = Some ''FILE'',
                 description = Some ''Read FILE.'', callback = record_call ''c'', hidden = False\<rparr>"

definition opt_log :: "(string \<times> call) list Option" where
  "opt_log = \<lparr>short_name = Some ''l'', long_name = Some ''log'', arg = Some ''[LOG_FILE]'',
              description = Some ''Enable logging.'', callback = record_call ''l'', hidden = True\<rparr>"

definition demo :: "(string \<times> call) list Command" where
  "demo = \<lparr>name = ''prog'', usage = Some ''[OPTION...] OPERAND...'', manual = None,
           options = [opt_all, opt_brief, opt_config, opt_log]\<rparr>"

lemmas demo_defs = demo_def opt_all_def opt_brief_def opt_config_def opt_log_def record_call_def

text \<open>
  The session of this command after the operand \<open>f\<close> of an argument list
  \<open>prog f ...\<close>, parsed from a heap that holds only that list.
\<close>

definition after_f :: "string list \<Rightarrow> (string \<times> call) list session" where
  "after_f args = \<lparr>operands = [''f''], argv = 1, argc = length args, argv_index = 2,
                   heap = \<lparr>cells = (\<lambda>_. [])(0 := args, 1 := args), fresh = 2\<rparr>,
                   ustate = []\<rparr>"

lemma scans_after_f:
  "scans demo (initial (heap_of (''prog'' # ''f'' # rest)) 0 []) (after_f (''prog'' # ''f'' # rest))"
proof -
  have "priv_parse demo (initial (heap_of (''prog'' # ''f'' # rest)) 0 []) =
          Return True (after_f (''prog'' # ''f'' # rest))"
    by (simp add: priv_parse_def initial_def heap_of_def list_copy_def argv_list_def
                  advance_def append_operand_def after_f_def Let_def eval_nat_numeral)
  then show ?thesis
    by (rule scans_next [OF _ scans_here])
qed

section \<open>The end-of-options marker\<close>

lemma final_parse: "final (parse cmd h a u) = session_of (parse_loop cmd (initial h a u))"
  by (simp add: parse_def split: step.splits exn.splits)

lemma parse_loop_end_marker:
  assumes "argv_index s < argc s" and "argc s = length (argv_list s)"
    and "argv_list s ! argv_index s = ''--''"
  shows "parse_loop cmd s =
           Return False (s\<lparr>operands := operands s @ drop (Suc (argv_index s)) (argv_list s),
                           argv_index := argc s\<rparr>)"
proof -
  let ?s1 = "s\<lparr>argv_index := argv_index s + 1\<rparr>"
  have "end_of_options ?s1 =
          Return False (?s1\<lparr>operands := operands ?s1 @ drop (argv_index ?s1) (argv_list ?s1),
                             argv_index := argc ?s1\<rparr>)"
    using assms by (intro end_of_options_eq) (auto simp: argv_list_def)
  then have "priv_parse cmd s =
          Return False (s\<lparr>operands := operands s @ drop (Suc (argv_index s)) (argv_list s),
                           argv_index := argc s\<rparr>)"
    using assms by (simp add: priv_parse_def argv_list_def)
  then show ?thesis by (subst parse_loop.simps) simp
qed

text \<open>
  Claim C4. When the element the scan arrives at is exactly \<open>--\<close>, every element after it
  is appended to the operands in order, whatever it looks like; nothing else of the session
  changes (no callback runs, no list is written), nothing is written to the error stream and
  \<open>parse\<close> returns \<open>False\<close>, its success value. In particular \<open>prog -- -x file\<close>
  gives the operands \<open>-x\<close> and \<open>file\<close>, for every command.
\<close>

theorem C4_end_of_options_marker:
  "(scans cmd (initial h a u) s \<and> argv_index s < argc s \<and> argv_list s ! argv_index s = ''--'' \<longrightarrow>
      parse cmd h a u =
        \<lparr>result = Returned False, stderr = [],
         final = s\<lparr>operands := operands s @ drop (Suc (argv_index s)) (cells h a),
                   argv_index := argc s\<rparr>\<rparr>) \<and>
   operands (final (parse_args cmd [''prog'', ''--'', ''-x'', ''file''] u)) = [''-x'', ''file'']"
proof (intro conjI impI)
  assume a: "scans cmd (initial h a u) s \<and> argv_index s < argc s \<and> argv_list s ! argv_index s = ''--''"
  then have sc: "scans cmd (initial h a u) s" by simp
  have inv: "session_inv h a s"
    by (rule session_inv_scans [OF sc session_inv_initial])
  then have len: "argc s = length (argv_list s)"
    and rest: "drop (Suc (argv_index s)) (argv_list s) = drop (Suc (argv_index s)) (cells h a)"
    by (simp_all add: session_inv_def)
  have "parse_loop cmd (initial h a u) = parse_loop cmd s"
    by (rule scans_parse_loop [OF sc])
  also have "\<dots> = Return False (s\<lparr>operands := operands s @ drop (Suc (argv_index s)) (argv_list s),
                           argv_index := argc s\<rparr>)"
    using a len by (intro parse_loop_end_marker) simp_all
  finally show "parse cmd h a u =
        \<lparr>result = Returned False, stderr = [],
         final = s\<lparr>operands := operands s @ drop (Suc (argv_index s)) (cells h a),
                   argv_index := argc s\<rparr>\<rparr>"
    by (simp add: parse_def rest)
next
  let ?args = "[''prog'', ''--'', ''-x'', ''file'']"
  let ?s = "initial (heap_of ?args) 0 u"
  have "parse_loop cmd ?s =
          Return False (?s\<lparr>operands := operands ?s @ drop (Suc (argv_index ?s)) (argv_list ?s),
                           argv_index := argc ?s\<rparr>)"
    by (intro parse_loop_end_marker)
       (simp_all add: initial_def heap_of_def list_copy_def argv_list_def)
  then show "operands (final (parse_args cmd ?args u)) = [''-x'', ''file'']"
    by (simp add: parse_args_def parse_def initial_def heap_of_def list_copy_def argv_list_def)
qed


text \<open>The claim at \<open>prog f -- -a g\<close>: \<open>-a\<close> is a registered flag and is not called.\<close>

theorem C4_end_of_options_marker_witness:
  "scans demo (initial (heap_of [''prog'', ''f'', ''--'', ''-a'', ''g'']) 0 [])
     (after_f [''prog'', ''f'', ''--'', ''-a'', ''g'']) \<and>
   argv_index (after_f [''prog'', ''f'', ''--'', ''-a'', ''g''])
     < argc (after_f [''prog'', ''f'', ''--'', ''-a'', ''g'']) \<and>
   argv_list (after_f [''prog'', ''f'', ''--'', ''-a'', ''g''])
     ! argv_index (after_f [''prog'', ''f'', ''--'', ''-a'', ''g'']) = ''--'' \<and>
   parse demo (heap_of [''prog'', ''f'', ''--'', ''-a'', ''g'']) 0 [] =
     \<lparr>result = Returned False, stderr = [],
      final = (after_f [''prog'', ''f'', ''--'', ''-a'', ''g''])
                \<lparr>operands := [''f'', ''-a'', ''g''], argv_index := 5\<rparr>\<rparr>"
proof -
  let ?args = "[''prog'', ''f'', ''--'', ''-a'', ''g'']"
  have 1: "scans demo (initial (heap_of ?args) 0 []) (after_f ?args)"
    by (rule scans_after_f)
  have 2: "argv_index (after_f ?args) < argc (after_f ?args) \<and>
           argv_list (after_f ?args) ! argv_index (after_f ?args) = ''--''"
    by (simp add: after_f_def argv_list_def)
  from C4_end_of_options_marker [of demo "heap_of ?args" 0 "[]" "after_f ?args"] 1 2
  show ?thesis
    by (simp add: after_f_def heap_of_def)
qed

section \<open>The caller's list\<close>

text \<open>
  Claim C10. \<open>parse\<close> never writes the caller's list: whatever the command, the arguments
  and the callbacks' results, and whether \<open>parse\<close> returns or raises, the list at the
  caller's address holds after the call what it held before. The rewrite of a short-option
  block goes to the copy made by \<open>argv.copy()\<close>.
\<close>

theorem C10_parse_keeps_caller_argv:
  assumes "a < fresh h"
  shows "cells (heap (final (parse cmd h a u))) a = cells h a"
proof -
  have "session_inv h a (final (parse cmd h a u))"
    unfolding final_parse by (rule session_inv_parse_loop [OF session_inv_initial])
  with assms show ?thesis by (simp add: session_inv_def)
qed

text \<open>
  The claim at \<open>prog -ab x\<close>: the copy ends as \<open>prog -b x\<close>, the caller's list is as
  it was.
\<close>

theorem C10_parse_keeps_caller_argv_witness:
  "0 < fresh (heap_of [''prog'', ''-ab'', ''x'']) \<and>
   cells (heap (final (parse demo (heap_of [''prog'', ''-ab'', ''x'']) 0 []))) 0 = [''prog'', ''-ab'', ''x''] \<and>
   argv_list (final (parse demo (heap_of [''prog'', ''-ab'', ''x'']) 0 [])) = [''prog'', ''-b'', ''x'']"
proof -
  have 1: "0 < fresh (heap_of [''prog'', ''-ab'', ''x''])" by (simp add: heap_of_def)
  have 2: "argv_list (final (parse demo (heap_of [''prog'', ''-ab'', ''x'']) 0 [])) = [''prog'', ''-b'', ''x'']"
    by code_simp
  from C10_parse_keeps_caller_argv [OF 1, of demo "[]"] 1 2 show ?thesis by (simp add: heap_of_def)
qed

section \<open>Classification of one element\<close>

text \<open>What \<open>str_find\<close> and the split at the first \<open>=\<close> give on the two shapes of a long option.\<close>

lemma str_find_absent: "c \<notin> set xs \<Longrightarrow> str_find xs c = -1"
  by (induction xs) auto

lemma str_find_ge: "str_find xs c \<ge> -1"
  by (induction xs) (auto simp: Let_def)

lemma str_find_first: "c \<notin> set xs \<Longrightarrow> str_find (xs @ c # ys) c = int (length xs)"
  by (induction xs) (auto simp: Let_def)

lemma split_long_plain:
  "CHR ''='' \<notin> set nm \<Longrightarrow> split_long (''--'' @ nm) = (nm, None)"
  by (simp add: split_long_def str_find_absent)

lemma split_long_attached:
  "CHR ''='' \<notin> set nm \<Longrightarrow> split_long (''--'' @ nm @ ''='' @ v) = (nm, Some v)"
proof -
  have "nat (int (length nm) + 1) = Suc (length nm)" by simp
  moreover assume "CHR ''='' \<notin> set nm"
  ultimately show ?thesis
    by (simp add: split_long_def str_find_first Let_def)
qed

lemma priv_parse_long:
  assumes "argv_index s < argc s" and "argc s = length (argv_list s)"
    and "argv_list s ! argv_index s = ''--'' @ r" and "r \<noteq> []"
  shows "priv_parse cmd s = long_option cmd (''--'' @ r) s"
  using assms by (simp add: priv_parse_def Let_def)

lemma priv_parse_short:
  assumes "argv_index s < argc s" and "argc s = length (argv_list s)"
    and "argv_list s ! argv_index s = CHR ''-'' # c # cs" and "c \<noteq> CHR ''-''"
  shows "priv_parse cmd s = short_option cmd (CHR ''-'' # c # cs) s"
  using assms by (simp add: priv_parse_def Let_def)

lemma long_option_unknown:
  assumes "split_long x = (nm, oarg)"
    and "\<forall>opt\<in>set (options cmd). long_name opt \<noteq> Some nm"
  shows "long_option cmd x s = Raise (ParsingError (''Unknown option: --'' @ nm)) s"
proof -
  from assms(2) have "find (\<lambda>opt. long_name opt = Some nm) (options cmd) = None"
    by (simp add: find_None_iff)
  with assms(1) show ?thesis by (simp add: long_option_def)
qed

lemma short_option_unknown:
  assumes "\<forall>opt\<in>set (options cmd). short_name opt \<noteq> Some [c]"
  shows "short_option cmd (CHR ''-'' # c # cs) s = Raise (ParsingError (''Unknown option: -'' @ [c])) s"
proof -
  from assms have "find (\<lambda>opt. short_name opt = Some [c]) (options cmd) = None"
    by (simp add: find_None_iff)
  then show ?thesis by (simp add: short_option_def)
qed

lemma parse_Raise:
  "parse_loop cmd (initial h a u) = Raise (ParsingError m) s \<Longrightarrow>
     parse cmd h a u = \<lparr>result = Returned True, stderr = m @ [CHR 0x0A], final = s\<rparr>"
  by (simp add: parse_def)

text \<open>
  Claim C5. When the scan arrives at a long option whose name (the part before the first
  \<open>=\<close>) no option of the registry has, or at a short option whose character no option
  has, \<open>parse\<close> returns \<open>True\<close>, its failure value, and writes the message
  \<open>Unknown option: ...\<close> and a newline to the error stream. The session is the one the
  scan arrived with: the operands accumulated before the element are still there and no
  callback has run for it.
\<close>

theorem C5_unknown_option:
  assumes "scans cmd (initial h a u) s" and "argv_index s < argc s"
  shows "(CHR ''='' \<notin> set nm \<and>
          (argv_list s ! argv_index s = ''--'' @ nm \<and> nm \<noteq> [] \<or>
           argv_list s ! argv_index s = ''--'' @ nm @ ''='' @ v) \<and>
          (\<forall>opt\<in>set (options cmd). long_name opt \<noteq> Some nm) \<longrightarrow>
            parse cmd h a u =
              \<lparr>result = Returned True, stderr = ''Unknown option: --'' @ nm @ [CHR 0x0A],
               final = s\<rparr>) \<and>
         (argv_list s ! argv_index s = CHR ''-'' # c # cs \<and> c \<noteq> CHR ''-'' \<and>
          (\<forall>opt\<in>set (options cmd). short_name opt \<noteq> Some [c]) \<longrightarrow>
            parse cmd h a u =
              \<lparr>result = Returned True, stderr = ''Unknown option: -'' @ [c] @ [CHR 0x0A],
               final = s\<rparr>)"
proof -
  have inv: "session_inv h a s"
    by (rule session_inv_scans [OF assms(1) session_inv_initial])
  then have len: "argc s = length (argv_list s)"
    by (simp add: session_inv_def)
  have loop: "parse_loop cmd (initial h a u) = parse_loop cmd s"
    by (rule scans_parse_loop [OF assms(1)])
  have raised: "parse cmd h a u = \<lparr>result = Returned True, stderr = m @ [CHR 0x0A], final = s\<rparr>"
    if "priv_parse cmd s = Raise (ParsingError m) s" for m
  proof -
    from that have "parse_loop cmd s = Raise (ParsingError m) s"
      by (subst parse_loop.simps) simp
    with loop show ?thesis by (simp add: parse_Raise)
  qed
  show ?thesis
  proof (intro conjI impI)
    assume a: "CHR ''='' \<notin> set nm \<and>
          (argv_list s ! argv_index s = ''--'' @ nm \<and> nm \<noteq> [] \<or>
           argv_list s ! argv_index s = ''--'' @ nm @ ''='' @ v) \<and>
          (\<forall>opt\<in>set (options cmd). long_name opt \<noteq> Some nm)"
    then obtain r oarg where tok: "argv_list s ! argv_index s = ''--'' @ r" "r \<noteq> []"
      and sp: "split_long (''--'' @ r) = (nm, oarg)"
      using split_long_plain [of nm] split_long_attached [of nm v] by auto
    have "priv_parse cmd s = long_option cmd (''--'' @ r) s"
      by (rule priv_parse_long [OF assms(2) len tok])
    also have "\<dots> = Raise (ParsingError (''Unknown option: --'' @ nm)) s"
      using a by (intro long_option_unknown [OF sp]) simp
    finally show "parse cmd h a u =
              \<lparr>result = Returned True, stderr = ''Unknown option: --'' @ nm @ [CHR 0x0A],
               final = s\<rparr>"
      using raised by simp
  next
    assume a: "argv_list s ! argv_index s = CHR ''-'' # c # cs \<and> c \<noteq> CHR ''-'' \<and>
          (\<forall>opt\<in>set (options cmd). short_name opt \<noteq> Some [c])"
    then have "priv_parse cmd s = short_option cmd (CHR ''-'' # c # cs) s"
      by (intro priv_parse_short [OF assms(2) len]) simp_all
    also have "\<dots> = Raise (ParsingError (''Unknown option: -'' @ [c])) s"
      using a by (intro short_option_unknown) simp
    finally show "parse cmd h a u =
              \<lparr>result = Returned True, stderr = ''Unknown option: -'' @ [c] @ [CHR 0x0A],
               final = s\<rparr>"
      using raised by simp
  qed
qed


text \<open>The claim at \<open>prog f --bogus -a\<close> and at \<open>prog f -z\<close>: the operand \<open>f\<close> is kept.\<close>

theorem C5_unknown_option_witness:
  "scans demo (initial (heap_of [''prog'', ''f'', ''--bogus'', ''-a'']) 0 [])
     (after_f [''prog'', ''f'', ''--bogus'', ''-a'']) \<and>
   argv_index (after_f [''prog'', ''f'', ''--bogus'', ''-a''])
     < argc (after_f [''prog'', ''f'', ''--bogus'', ''-a'']) \<and>
   CHR ''='' \<notin> set ''bogus'' \<and>
   argv_list (after_f [''prog'', ''f'', ''--bogus'', ''-a''])
     ! argv_index (after_f [''prog'', ''f'', ''--bogus'', ''-a'']) = ''--'' @ ''bogus'' \<and>
   find (\<lambda>p. long_name p = Some ''bogus'') (options demo) = None \<and>
   parse demo (heap_of [''prog'', ''f'', ''--bogus'', ''-a'']) 0 [] =
     \<lparr>result = Returned True, stderr = ''Unknown option: --bogus'' @ [CHR 0x0A],
      final = after_f [''prog'', ''f'', ''--bogus'', ''-a'']\<rparr> \<and>
   scans demo (initial (heap_of [''prog'', ''f'', ''-z'']) 0 []) (after_f [''prog'', ''f'', ''-z'']) \<and>
   argv_index (after_f [''prog'', ''f'', ''-z'']) < argc (after_f [''prog'', ''f'', ''-z'']) \<and>
   argv_list (after_f [''prog'', ''f'', ''-z'']) ! argv_index (after_f [''prog'', ''f'', ''-z''])
     = CHR ''-'' # CHR ''z'' # [] \<and>
   CHR ''z'' \<noteq> CHR ''-'' \<and>
   find (\<lambda>p. short_name p = Some [CHR ''z'']) (options demo) = None \<and>
   parse demo (heap_of [''prog'', ''f'', ''-z'']) 0 [] =
     \<lparr>result = Returned True, stderr = ''Unknown option: -z'' @ [CHR 0x0A],
      final = after_f [''prog'', ''f'', ''-z'']\<rparr>"
proof -
  let ?l = "[''prog'', ''f'', ''--bogus'', ''-a'']"
  let ?s = "[''prog'', ''f'', ''-z'']"
  have l1: "scans demo (initial (heap_of ?l) 0 []) (after_f ?l)"
    by (rule scans_after_f)
  have l2: "argv_index (after_f ?l) < argc (after_f ?l)"
    by (simp add: after_f_def)
  have l3: "CHR ''='' \<notin> set ''bogus'' \<and>
            argv_list (after_f ?l) ! argv_index (after_f ?l) = ''--'' @ ''bogus'' \<and>
            (\<forall>opt\<in>set (options demo). long_name opt \<noteq> Some ''bogus'')"
    by (simp add: after_f_def argv_list_def demo_defs)
  have s1: "scans demo (initial (heap_of ?s) 0 []) (after_f ?s)"
    by (rule scans_after_f)
  have s2: "argv_index (after_f ?s) < argc (after_f ?s)"
    by (simp add: after_f_def)
  have s3: "argv_list (after_f ?s) ! argv_index (after_f ?s) = CHR ''-'' # CHR ''z'' # [] \<and>
            CHR ''z'' \<noteq> CHR ''-'' \<and>
            (\<forall>opt\<in>set (options demo). short_name opt \<noteq> Some [CHR ''z''])"
    by (simp add: after_f_def argv_list_def demo_defs)
  from C5_unknown_option [OF l1 l2, of "''bogus''" "[]" "CHR ''z''" "[]"] l3
  have "parse demo (heap_of ?l) 0 [] =
     \<lparr>result = Returned True, stderr = ''Unknown option: --bogus'' @ [CHR 0x0A],
      final = after_f ?l\<rparr>"
    by simp
  moreover from C5_unknown_option [OF s1 s2, of "''bogus''" "[]" "CHR ''z''" "[]"] s3
  have "parse demo (heap_of ?s) 0 [] =
     \<lparr>result = Returned True, stderr = ''Unknown option: -z'' @ [CHR 0x0A],
      final = after_f ?s\<rparr>"
    by simp
  ultimately show ?thesis
    using l1 l2 l3 s1 s2 s3 by (simp add: find_None_iff)
qed

section \<open>Options with an argument\<close>

lemma invoke_Call1:
  "callback opt = Some cb \<Longrightarrow> truthy (arg opt) \<Longrightarrow> invoke opt oarg u = cb (Call1 oarg) u"
  by (simp add: invoke_def)

lemma invoke_Call0:
  "callback opt = Some cb \<Longrightarrow> \<not> truthy (arg opt) \<Longrightarrow> invoke opt oarg u = cb Call0 u"
  by (simp add: invoke_def)

text \<open>
  Claim C1. Let \<open>opt\<close> be the option the lookup finds for a long name \<open>nm\<close> (not empty,
  without \<open>=\<close>) or for a short character \<open>c\<close> (not \<open>-\<close>), let its argument be optional
  (\<open>arg\<close> starts with a bracket) and let it have a callback. Then one call of \<open>_parse\<close>
  on \<open>--nm\<close> calls the callback with \<open>None\<close>, on \<open>--nm=\<close> with the empty string, on
  \<open>--nm=v\<close> with \<open>v\<close>, on \<open>-c\<close> with \<open>None\<close> and on \<open>-cv\<close> with \<open>v\<close>. In every case
  the cursor moves by exactly one and nothing but the integrator's state changes, so the
  following element is never taken as the argument: it is the next element classified.
\<close>

theorem C1_optional_argument:
  fixes cmd :: "'u Command" and s :: "'u session"
  defines "called \<equiv> \<lambda>cb c. case cb c (ustate s) of
                       Inl e \<Rightarrow> Raise e s
                     | Inr u \<Rightarrow> Return True (s\<lparr>argv_index := argv_index s + 1, ustate := u\<rparr>)"
  assumes cursor: "argv_index s < argc s" "argc s = length (argv_list s)"
    and optional: "truthy (arg opt)" "startswith_bracket (arg opt)"
    and handler: "callback opt = Some cb"
  shows "(find (\<lambda>p. long_name p = Some nm) (options cmd) = Some opt \<and>
          nm \<noteq> [] \<and> CHR ''='' \<notin> set nm \<longrightarrow>
            (argv_list s ! argv_index s = ''--'' @ nm \<longrightarrow>
               priv_parse cmd s = called cb (Call1 None)) \<and>
            (argv_list s ! argv_index s = ''--'' @ nm @ ''='' \<longrightarrow>
               priv_parse cmd s = called cb (Call1 (Some []))) \<and>
            (argv_list s ! argv_index s = ''--'' @ nm @ ''='' @ v \<longrightarrow>
               priv_parse cmd s = called cb (Call1 (Some v)))) \<and>
         (find (\<lambda>p. short_name p = Some [c]) (options cmd) = Some opt \<and> c \<noteq> CHR ''-'' \<longrightarrow>
            (argv_list s ! argv_index s = [CHR ''-'', c] \<longrightarrow>
               priv_parse cmd s = called cb (Call1 None)) \<and>
            (argv_list s ! argv_index s = CHR ''-'' # c # v \<and> v \<noteq> [] \<longrightarrow>
               priv_parse cmd s = called cb (Call1 (Some v))))"
proof -
  have long: "priv_parse cmd s = called cb (Call1 oarg)"
    if "find (\<lambda>p. long_name p = Some nm) (options cmd) = Some opt"
      and "argv_list s ! argv_index s = ''--'' @ r" and "r \<noteq> []"
      and "split_long (''--'' @ r) = (nm, oarg)" for r oarg
  proof -
    have "priv_parse cmd s = long_option cmd (''--'' @ r) s"
      by (rule priv_parse_long [OF cursor that(2,3)])
    also have "\<dots> = called cb (Call1 oarg)"
      using that(1,4) optional
      by (simp add: long_option_def long_arg_def invoke_Call1 [OF handler] advance_def called_def
               split: sum.splits)
    finally show ?thesis .
  qed
  have short: "priv_parse cmd s = called cb (Call1 (if cs = [] then None else Some cs))"
    if "find (\<lambda>p. short_name p = Some [c]) (options cmd) = Some opt"
      and "argv_list s ! argv_index s = CHR ''-'' # c # cs" and "c \<noteq> CHR ''-''" for cs
  proof -
    have "priv_parse cmd s = short_option cmd (CHR ''-'' # c # cs) s"
      by (rule priv_parse_short [OF cursor that(2,3)])
    also have "\<dots> = called cb (Call1 (if cs = [] then None else Some cs))"
      using that(1) optional
      by (simp add: short_option_def short_arg_def invoke_Call1 [OF handler] advance_def called_def
               split: sum.splits)
    finally show ?thesis .
  qed
  show ?thesis
  proof (intro conjI impI)
    assume a: "find (\<lambda>p. long_name p = Some nm) (options cmd) = Some opt \<and>
          nm \<noteq> [] \<and> CHR ''='' \<notin> set nm"
    then have f: "find (\<lambda>p. long_name p = Some nm) (options cmd) = Some opt"
      and ne: "nm \<noteq> []" and eq: "CHR ''='' \<notin> set nm"
      by simp_all
    {
      assume t: "argv_list s ! argv_index s = ''--'' @ nm"
      show "priv_parse cmd s = called cb (Call1 None)"
        by (rule long [OF f t ne split_long_plain [OF eq]])
    next
      assume t: "argv_list s ! argv_index s = ''--'' @ nm @ ''=''"
      have sp: "split_long (''--'' @ nm @ ''='') = (nm, Some [])"
        using split_long_attached [OF eq, of "[]"] by simp
      show "priv_parse cmd s = called cb (Call1 (Some []))"
        by (rule long [OF f t _ sp]) simp
    next
      assume t: "argv_list s ! argv_index s = ''--'' @ nm @ ''='' @ v"
      show "priv_parse cmd s = called cb (Call1 (Some v))"
        by (rule long [OF f t _ split_long_attached [OF eq]]) simp
    }
  next
    assume a: "find (\<lambda>p. short_name p = Some [c]) (options cmd) = Some opt \<and> c \<noteq> CHR ''-''"
    {
      assume "argv_list s ! argv_index s = [CHR ''-'', c]"
      with a show "priv_parse cmd s = called cb (Call1 None)"
        using short [of "[]"] by simp
    next
      assume "argv_list s ! argv_index s = CHR ''-'' # c # v \<and> v \<noteq> []"
      with a show "priv_parse cmd s = called cb (Call1 (Some v))"
        using short [of v] by simp
    }
  qed
qed


text \<open>
  The claim at the hidden option \<open>-l\<close>, \<open>--log\<close> of the command above, followed by an element
  \<open>x\<close> that is never taken.
\<close>

theorem C1_optional_argument_witness:
  "priv_parse demo (after_f [''prog'', ''f'', ''--log'', ''x'']) =
     Return True ((after_f [''prog'', ''f'', ''--log'', ''x''])
                    \<lparr>argv_index := 3, ustate := [(''l'', Call1 None)]\<rparr>) \<and>
   priv_parse demo (after_f [''prog'', ''f'', ''--log='', ''x'']) =
     Return True ((after_f [''prog'', ''f'', ''--log='', ''x''])
                    \<lparr>argv_index := 3, ustate := [(''l'', Call1 (Some []))]\<rparr>) \<and>
   priv_parse demo (after_f [''prog'', ''f'', ''--log=y'', ''x'']) =
     Return True ((after_f [''prog'', ''f'', ''--log=y'', ''x''])
                    \<lparr>argv_index := 3, ustate := [(''l'', Call1 (Some ''y''))]\<rparr>) \<and>
   priv_parse demo (after_f [''prog'', ''f'', ''-l'', ''x'']) =
     Return True ((after_f [''prog'', ''f'', ''-l'', ''x''])
                    \<lparr>argv_index := 3, ustate := [(''l'', Call1 None)]\<rparr>) \<and>
   priv_parse demo (after_f [''prog'', ''f'', ''-ly'', ''x'']) =
     Return True ((after_f [''prog'', ''f'', ''-ly'', ''x''])
                    \<lparr>argv_index := 3, ustate := [(''l'', Call1 (Some ''y''))]\<rparr>)"
proof -
  have opt: "truthy (arg opt_log)" "startswith_bracket (arg opt_log)"
    "callback opt_log = Some (\<lambda>c u. Inr (u @ [(''l'', c)]))"
    by (simp_all add: opt_log_def record_call_def)
  have cur: "argv_index (after_f [''prog'', ''f'', t, ''x'']) < argc (after_f [''prog'', ''f'', t, ''x''])"
    "argc (after_f [''prog'', ''f'', t, ''x'']) = length (argv_list (after_f [''prog'', ''f'', t, ''x'']))"
    "argv_list (after_f [''prog'', ''f'', t, ''x'']) ! argv_index (after_f [''prog'', ''f'', t, ''x'']) = t"
    for t
    by (simp_all add: after_f_def argv_list_def)
  have reg: "find (\<lambda>p. long_name p = Some ''log'') (options demo) = Some opt_log \<and>
             ''log'' \<noteq> [] \<and> CHR ''='' \<notin> set ''log''"
    "find (\<lambda>p. short_name p = Some [CHR ''l'']) (options demo) = Some opt_log \<and>
     CHR ''l'' \<noteq> CHR ''-''"
    by (simp_all add: demo_defs)
  from C1_optional_argument [OF cur(1,2) [of "''--log''"] opt, where cmd = demo and nm = "''log''"
         and c = "CHR ''l''" and v = "[]"] reg cur(3) [of "''--log''"]
  have 1: "priv_parse demo (after_f [''prog'', ''f'', ''--log'', ''x'']) =
     Return True ((after_f [''prog'', ''f'', ''--log'', ''x''])
                    \<lparr>argv_index := 3, ustate := [(''l'', Call1 None)]\<rparr>)"
    by (simp add: after_f_def)
  from C1_optional_argument [OF cur(1,2) [of "''--log=''"] opt, where cmd = demo and nm = "''log''"
         and c = "CHR ''l''" and v = "[]"] reg cur(3) [of "''--log=''"]
  have 2: "priv_parse demo (after_f [''prog'', ''f'', ''--log='', ''x'']) =
     Return True ((after_f [''prog'', ''f'', ''--log='', ''x''])
                    \<lparr>argv_index := 3, ustate := [(''l'', Call1 (Some []))]\<rparr>)"
    by (simp add: after_f_def)
  from C1_optional_argument [OF cur(1,2) [of "''--log=y''"] opt, where cmd = demo and nm = "''log''"
         and c = "CHR ''l''" and v = "''y''"] reg cur(3) [of "''--log=y''"]
  have 3: "priv_parse demo (after_f [''prog'', ''f'', ''--log=y'', ''x'']) =
     Return True ((after_f [''prog'', ''f'', ''--log=y'', ''x''])
                    \<lparr>argv_index := 3, ustate := [(''l'', Call1 (Some ''y''))]\<rparr>)"
    by (simp add: after_f_def)
  from C1_optional_argument [OF cur(1,2) [of "''-l''"] opt, where cmd = demo and nm = "''log''"
         and c = "CHR ''l''" and v = "[]"] reg cur(3) [of "''-l''"]
  have 4: "priv_parse demo (after_f [''prog'', ''f'', ''-l'', ''x'']) =
     Return True ((after_f [''prog'', ''f'', ''-l'', ''x''])
                    \<lparr>argv_index := 3, ustate := [(''l'', Call1 None)]\<rparr>)"
    by (simp add: after_f_def)
  from C1_optional_argument [OF cur(1,2) [of "''-ly''"] opt, where cmd = demo and nm = "''log''"
         and c = "CHR ''l''" and v = "''y''"] reg cur(3) [of "''-ly''"]
  have 5: "priv_parse demo (after_f [''prog'', ''f'', ''-ly'', ''x'']) =
     Return True ((after_f [''prog'', ''f'', ''-ly'', ''x''])
                    \<lparr>argv_index := 3, ustate := [(''l'', Call1 (Some ''y''))]\<rparr>)"
    by (simp add: after_f_def)
  from 1 2 3 4 5 show ?thesis by blast
qed

section \<open>Sessions with the same elements left\<close>

text \<open>
  Two sessions are alike for the rest of the scan when they have the same operands, the same
  integrator's state and the same elements from the cursor on, each in a list of length
  \<open>argc\<close>. Two calls are alike when they return the same value and leave such sessions, or
  raise the same exception with the same operands and integrator's state.
\<close>

definition same_rest :: "'u session \<Rightarrow> 'u session \<Rightarrow> bool" where
  "same_rest s t \<longleftrightarrow>
     operands s = operands t \<and> ustate s = ustate t \<and>
     argc s = length (argv_list s) \<and> argc t = length (argv_list t) \<and>
     drop (argv_index s) (argv_list s) = drop (argv_index t) (argv_list t)"

fun same_step :: "'u step \<Rightarrow> 'u step \<Rightarrow> bool" where
  "same_step (Return b s) (Return b' t) = (b = b' \<and> same_rest s t)"
| "same_step (Raise e s) (Raise e' t) = (e = e' \<and> operands s = operands t \<and> ustate s = ustate t)"
| "same_step _ _ = False"

fun same_arg ::
  "(exn \<times> 'u session) + (string option \<times> 'u session) \<Rightarrow>
   (exn \<times> 'u session) + (string option \<times> 'u session) \<Rightarrow> bool" where
  "same_arg (Inl (e, s)) (Inl (e', t)) = (e = e' \<and> operands s = operands t \<and> ustate s = ustate t)"
| "same_arg (Inr (x, s)) (Inr (y, t)) = (x = y \<and> same_rest s t)"
| "same_arg _ _ = False"

lemma same_rest_cursor:
  assumes "same_rest s t"
  shows "argv_index s < argc s \<longleftrightarrow> argv_index t < argc t"
proof -
  from assms have "length (drop (argv_index s) (argv_list s)) = length (drop (argv_index t) (argv_list t))"
    by (simp add: same_rest_def)
  then have "length (argv_list s) - argv_index s = length (argv_list t) - argv_index t"
    by simp
  moreover from assms have "argc s = length (argv_list s)" "argc t = length (argv_list t)"
    by (simp_all add: same_rest_def)
  ultimately show ?thesis by arith
qed

lemma same_rest_element:
  assumes "same_rest s t" and "argv_index s < argc s"
  shows "argv_list s ! argv_index s = argv_list t ! argv_index t"
proof -
  from assms same_rest_cursor [OF assms(1)] have lt: "argv_index s < length (argv_list s)"
    "argv_index t < length (argv_list t)"
    by (simp_all add: same_rest_def)
  have "argv_list s ! argv_index s = hd (drop (argv_index s) (argv_list s))"
    using lt by (simp add: hd_drop_conv_nth)
  also have "\<dots> = hd (drop (argv_index t) (argv_list t))"
    using assms by (simp add: same_rest_def)
  also have "\<dots> = argv_list t ! argv_index t"
    using lt by (simp add: hd_drop_conv_nth)
  finally show ?thesis .
qed

lemma same_rest_next:
  "same_rest s t \<Longrightarrow>
   same_rest (s\<lparr>argv_index := argv_index s + 1\<rparr>) (t\<lparr>argv_index := argv_index t + 1\<rparr>)"
  by (auto simp: same_rest_def argv_list_def dest: drop_Suc_cong [where n = "argv_index s" for s])
     (metis drop_Suc tl_drop)

lemma same_rest_ustate:
  "same_rest s t \<Longrightarrow> same_rest (s\<lparr>ustate := u\<rparr>) (t\<lparr>ustate := u\<rparr>)"
  by (auto simp: same_rest_def argv_list_def)

lemma same_rest_append_operand:
  "same_rest s t \<Longrightarrow> same_rest (append_operand x s) (append_operand x t)"
  by (auto simp: same_rest_def argv_list_def append_operand_def)

lemma same_step_advance:
  "same_rest s t \<Longrightarrow> same_step (advance s) (advance t)"
  using same_rest_next [of s t] by (simp add: advance_def)

lemma same_arg_take_next:
  assumes "same_rest s t"
  shows "same_arg (take_next m s) (take_next m t)"
proof -
  let ?s1 = "s\<lparr>argv_index := argv_index s + 1\<rparr>" and ?t1 = "t\<lparr>argv_index := argv_index t + 1\<rparr>"
  have r: "same_rest ?s1 ?t1" by (rule same_rest_next [OF assms])
  have len: "argc ?s1 = length (argv_list ?s1)" "argc ?t1 = length (argv_list ?t1)"
    using r by (simp_all add: same_rest_def)
  show ?thesis
  proof (cases "argv_index ?s1 < argc ?s1")
    case True
    with same_rest_cursor [OF r] have lt: "argv_index ?t1 < argc ?t1" by simp
    from same_rest_element [OF r True] True lt len r show ?thesis
      by (simp add: take_next_def Let_def)
  next
    case False
    with same_rest_cursor [OF r] have "\<not> argv_index ?t1 < argc ?t1" by simp
    with False r show ?thesis
      by (simp add: take_next_def Let_def same_rest_def)
  qed
qed

lemma drop_update_here:
  "i < length xs \<Longrightarrow> drop i (xs[i := v]) = v # drop (Suc i) xs"
  using Cons_nth_drop_Suc [of i "xs[i := v]"] by simp

lemma same_step_rewrite_block:
  assumes "same_rest s t" and "argv_index s < argc s"
  shows "same_step (rewrite_block x s) (rewrite_block x t)"
proof -
  from assms same_rest_cursor [OF assms(1)]
  have lt: "argv_index s < length (argv_list s)" "argv_index t < length (argv_list t)"
    by (simp_all add: same_rest_def)
  from assms(1) have "drop (Suc (argv_index s)) (argv_list s) = drop (Suc (argv_index t)) (argv_list t)"
    unfolding same_rest_def by (metis drop_Suc tl_drop)
  with lt assms(1) show ?thesis
    by (simp add: rewrite_block_def same_rest_def argv_list_def drop_update_here)
qed

lemma same_arg_long_arg:
  "same_rest s t \<Longrightarrow> same_arg (long_arg opt nm oarg s) (long_arg opt nm oarg t)"
  by (auto simp: long_arg_def same_arg_take_next same_rest_def)

lemma same_arg_short_arg:
  "same_rest s t \<Longrightarrow> same_arg (short_arg opt x s) (short_arg opt x t)"
  by (auto simp: short_arg_def same_arg_take_next same_rest_def)

lemma same_arg_cases:
  assumes "same_arg r r'"
  obtains (raised) e s t where "r = Inl (e, s)" "r' = Inl (e, t)"
      "operands s = operands t" "ustate s = ustate t"
    | (taken) x s t where "r = Inr (x, s)" "r' = Inr (x, t)" "same_rest s t"
  using assms by (cases "(r, r')" rule: same_arg.cases) auto

lemma same_step_long_option:
  assumes "same_rest s t"
  shows "same_step (long_option cmd x s) (long_option cmd x t)"
proof -
  obtain nm oarg where sp: "split_long x = (nm, oarg)" by (cases "split_long x")
  show ?thesis
  proof (cases "find (\<lambda>opt. long_name opt = Some nm) (options cmd)")
    case None
    with sp assms show ?thesis by (simp add: long_option_def same_rest_def)
  next
    case (Some opt)
    from same_arg_long_arg [OF assms, of opt nm oarg] show ?thesis
    proof (cases rule: same_arg_cases)
      case (raised e s1 t1)
      with sp Some show ?thesis by (simp add: long_option_def)
    next
      case (taken y s1 t1)
      then have u: "ustate s1 = ustate t1" by (simp add: same_rest_def)
      show ?thesis
      proof (cases "invoke opt y (ustate t1)")
        case (Inl e)
        with sp Some taken u show ?thesis by (simp add: long_option_def same_rest_def)
      next
        case (Inr u')
        with sp Some taken u show ?thesis
          by (simp add: long_option_def same_step_advance same_rest_ustate)
      qed
    qed
  qed
qed

lemma same_step_short_option:
  assumes "same_rest s t" and "argv_index s < argc s" and "length x \<le> 2 \<or> x = argv_list s ! argv_index s"
  shows "same_step (short_option cmd x s) (short_option cmd x t)"
proof (cases "find (\<lambda>opt. short_name opt = Some [x ! 1]) (options cmd)")
  case None
  with assms show ?thesis by (simp add: short_option_def same_rest_def)
next
  case (Some opt)
  from same_arg_short_arg [OF assms(1), of opt x] show ?thesis
  proof (cases rule: same_arg_cases)
    case (raised e s1 t1)
    with Some show ?thesis by (simp add: short_option_def)
  next
    case (taken y s1 t1)
    then have u: "ustate s1 = ustate t1" by (simp add: same_rest_def)
    show ?thesis
    proof (cases "invoke opt y (ustate t1)")
      case (Inl e)
      with Some taken u show ?thesis by (simp add: short_option_def same_rest_def)
    next
      case (Inr u')
      show ?thesis
      proof (cases "\<not> truthy y \<and> length x > 2")
        case True
        then have "short_arg opt x s = Inr (None, s)"
          using taken(1) by (auto simp: short_arg_def split: if_splits)
        with taken have s1: "s1 = s" by simp
        from True have "short_arg opt x t = Inr (None, t)"
          using taken(2) by (auto simp: short_arg_def split: if_splits)
        with taken have t1: "t1 = t" by simp
        have "same_step (rewrite_block x (s\<lparr>ustate := u'\<rparr>)) (rewrite_block x (t\<lparr>ustate := u'\<rparr>))"
          using assms by (intro same_step_rewrite_block same_rest_ustate) simp_all
        with Some taken u Inr True s1 t1 show ?thesis
          by (simp add: short_option_def)
      next
        case False
        with Some taken u Inr show ?thesis
          by (auto simp: short_option_def same_step_advance same_rest_ustate)
      qed
    qed
  qed
qed

lemma same_step_end_of_options:
  assumes "same_rest s t" and "argv_index s \<le> argc s" and "argv_index t \<le> argc t"
  shows "same_step (end_of_options s) (end_of_options t)"
proof -
  from assms have len: "argc s = length (argv_list s)" "argc t = length (argv_list t)"
    by (simp_all add: same_rest_def)
  from assms show ?thesis
    by (simp add: end_of_options_eq [OF assms(2) len(1)] end_of_options_eq [OF assms(3) len(2)]
                  same_rest_def argv_list_def)
qed

lemma same_step_priv_parse:
  assumes "same_rest s t"
  shows "same_step (priv_parse cmd s) (priv_parse cmd t)"
proof (cases "argv_index s < argc s")
  case False
  with same_rest_cursor [OF assms] have "\<not> argv_index t < argc t" by simp
  with False assms show ?thesis by (simp add: priv_parse_def)
next
  case True
  with same_rest_cursor [OF assms] have lt: "argv_index t < argc t" by simp
  from assms have len: "argc s = length (argv_list s)" "argc t = length (argv_list t)"
    by (simp_all add: same_rest_def)
  define x where "x = argv_list s ! argv_index s"
  with same_rest_element [OF assms True] have x': "argv_list t ! argv_index t = x" by simp
  have op: "same_step (advance (append_operand x s)) (advance (append_operand x t))"
    by (intro same_step_advance same_rest_append_operand assms)
  have eo: "same_step (end_of_options (s\<lparr>argv_index := argv_index s + 1\<rparr>))
                      (end_of_options (t\<lparr>argv_index := argv_index t + 1\<rparr>))"
    using True lt by (intro same_step_end_of_options same_rest_next assms) simp_all
  have lo: "same_step (long_option cmd x s) (long_option cmd x t)"
    by (rule same_step_long_option [OF assms])
  have sh: "same_step (short_option cmd x s) (short_option cmd x t)"
    by (rule same_step_short_option [OF assms True]) (simp add: x_def)
  from True lt len x' op eo lo sh show ?thesis
    by (auto simp: priv_parse_def Let_def x_def [symmetric])
qed

lemma same_step_parse_loop:
  "same_rest s t \<Longrightarrow> same_step (parse_loop cmd s) (parse_loop cmd t)"
proof (induction cmd s arbitrary: t rule: parse_loop.induct)
  case (1 cmd s)
  from same_step_priv_parse [OF "1.prems", of cmd] show ?case
  proof (cases "(priv_parse cmd s, priv_parse cmd t)" rule: same_step.cases)
    case (1 b s' b' t')
    with \<open>same_step (priv_parse cmd s) (priv_parse cmd t)\<close> "1.IH" [of b s' t'] show ?thesis
      by (subst (1 2) parse_loop.simps) (auto simp: same_rest_def)
  next
    case (2 e s' e' t')
    with \<open>same_step (priv_parse cmd s) (priv_parse cmd t)\<close> show ?thesis
      by (subst (1 2) parse_loop.simps) simp
  qed (use \<open>same_step (priv_parse cmd s) (priv_parse cmd t)\<close> in auto)
qed

section \<open>What a caller observes\<close>

text \<open>
  Of a finished scan: the value returned or the exception raised, the operands and the
  integrator's state (which holds the effect of every callback, in the order of the calls).
  Of a call of \<open>parse\<close>: the result, the text on the error stream, the operands and the
  integrator's state.
\<close>

definition outcome :: "'u step \<Rightarrow> (bool + exn) \<times> string list \<times> 'u" where
  "outcome r = (case r of Return b s \<Rightarrow> (Inl b, operands s, ustate s)
                        | Raise e s \<Rightarrow> (Inr e, operands s, ustate s))"

definition observed :: "'u parsed \<Rightarrow> result \<times> string \<times> string list \<times> 'u" where
  "observed r = (result r, stderr r, operands (final r), ustate (final r))"

lemma same_step_outcome: "same_step r r' \<Longrightarrow> outcome r = outcome r'"
  by (cases "(r, r')" rule: same_step.cases) (auto simp: outcome_def same_rest_def)

lemma observed_parse:
  "observed (parse cmd h a u) =
     (case outcome (parse_loop cmd (initial h a u)) of
        (Inl b, ops, u') \<Rightarrow> (Returned False, [], ops, u')
      | (Inr (ParsingError m), ops, u') \<Rightarrow> (Returned True, m @ [CHR 0x0A], ops, u')
      | (Inr e, ops, u') \<Rightarrow> (Uncaught e, [], ops, u'))"
  by (simp add: observed_def parse_def outcome_def split: step.splits exn.splits)

text \<open>The first session of \<open>parse\<close> on an argument list alone in the heap.\<close>

lemma same_rest_initial:
  "operands (initial (heap_of args) 0 u) = [] \<and> ustate (initial (heap_of args) 0 u) = u \<and>
   argc (initial (heap_of args) 0 u) = length (argv_list (initial (heap_of args) 0 u)) \<and>
   drop (argv_index (initial (heap_of args) 0 u)) (argv_list (initial (heap_of args) 0 u)) = drop 1 args"
  by (simp add: initial_def heap_of_def list_copy_def argv_list_def)

lemma drop_element:
  assumes "drop i xs = x # r"
  shows "i < length xs" and "xs ! i = x" and "drop (Suc i) xs = r"
proof -
  show 1: "i < length xs"
    using assms by (metis drop_all list.distinct(1) not_le)
  from Cons_nth_drop_Suc [OF 1] assms show "xs ! i = x" and "drop (Suc i) xs = r"
    by simp_all
qed

text \<open>One call on a flag: alone in its element, or leading a block.\<close>

lemma priv_parse_flag:
  assumes len: "argc s = length (argv_list s)"
    and el: "drop (argv_index s) (argv_list s) = (CHR ''-'' # c # cs) # r"
    and c: "c \<noteq> CHR ''-''"
    and opt: "find (\<lambda>p. short_name p = Some [c]) (options cmd) = Some opt" "\<not> truthy (arg opt)"
  shows "case invoke opt None (ustate s) of
           Inl e \<Rightarrow> priv_parse cmd s = Raise e s
         | Inr u \<Rightarrow> \<exists>s'. priv_parse cmd s = Return True s' \<and>
                     operands s' = operands s \<and> ustate s' = u \<and>
                     argc s' = length (argv_list s') \<and>
                     drop (argv_index s') (argv_list s') =
                       (if cs = [] then r else (CHR ''-'' # cs) # r)"
proof -
  note d = drop_element [OF el]
  from d(1) len have cur: "argv_index s < argc s" by simp
  have pp: "priv_parse cmd s = short_option cmd (CHR ''-'' # c # cs) s"
    by (rule priv_parse_short [OF cur len d(2) c])
  show ?thesis
  proof (cases "invoke opt None (ustate s)")
    case (Inl e)
    with opt show ?thesis by (simp add: pp short_option_def short_arg_def)
  next
    case (Inr u)
    show ?thesis
    proof (cases "cs = []")
      case True
      with Inr opt d len show ?thesis
        by (simp add: pp short_option_def short_arg_def advance_def argv_list_def)
    next
      case False
      with Inr opt d len show ?thesis
        by (simp add: pp short_option_def short_arg_def rewrite_block_def argv_list_def
                      drop_update_here)
    qed
  qed
qed

lemma parse_loop_block:
  assumes "\<forall>f\<in>set fs. f \<noteq> CHR ''-'' \<and>
             (\<exists>opt. find (\<lambda>p. short_name p = Some [f]) (options cmd) = Some opt \<and> \<not> truthy (arg opt))"
    and "last_part \<noteq> []"
    and "operands s = operands t" and "ustate s = ustate t"
    and "argc s = length (argv_list s)" and "argc t = length (argv_list t)"
    and "drop (argv_index s) (argv_list s) = (CHR ''-'' # fs @ last_part) # r"
    and "drop (argv_index t) (argv_list t) = map (\<lambda>f. [CHR ''-'', f]) fs @ (CHR ''-'' # last_part) # r"
  shows "same_step (parse_loop cmd s) (parse_loop cmd t)"
  using assms
proof (induction fs arbitrary: s t)
  case Nil
  then have "same_rest s t" by (simp add: same_rest_def)
  then show ?case by (rule same_step_parse_loop)
next
  case (Cons f fs)
  from Cons.prems(1) obtain opt where f: "f \<noteq> CHR ''-''"
    and opt: "find (\<lambda>p. short_name p = Some [f]) (options cmd) = Some opt" "\<not> truthy (arg opt)"
    by auto
  from Cons.prems have els: "drop (argv_index s) (argv_list s) = (CHR ''-'' # f # (fs @ last_part)) # r"
    and elt: "drop (argv_index t) (argv_list t) =
                (CHR ''-'' # f # []) # (map (\<lambda>f. [CHR ''-'', f]) fs @ (CHR ''-'' # last_part) # r)"
    by simp_all
  note ps = priv_parse_flag [OF Cons.prems(5) els f opt]
  note pt = priv_parse_flag [OF Cons.prems(6) elt f opt]
  show ?case
  proof (cases "invoke opt None (ustate s)")
    case (Inl e)
    with ps pt Cons.prems(3,4) show ?thesis
      by (subst (1 2) parse_loop.simps) simp
  next
    case (Inr u)
    with ps obtain s' where s': "priv_parse cmd s = Return True s'"
      "operands s' = operands s" "ustate s' = u" "argc s' = length (argv_list s')"
      "drop (argv_index s') (argv_list s') = (CHR ''-'' # fs @ last_part) # r"
      using Cons.prems(2) by auto
    from Inr pt Cons.prems(4) obtain t' where t': "priv_parse cmd t = Return True t'"
      "operands t' = operands t" "ustate t' = u" "argc t' = length (argv_list t')"
      "drop (argv_index t') (argv_list t') = map (\<lambda>f. [CHR ''-'', f]) fs @ (CHR ''-'' # last_part) # r"
      by auto
    have "same_step (parse_loop cmd s') (parse_loop cmd t')"
      using Cons.prems(1,2,3) s' t' by (intro Cons.IH) simp_all
    with s'(1) t'(1) show ?thesis
      by (subst (1 2) parse_loop.simps) simp
  qed
qed

text \<open>
  Claim C2. Let the lookup find, for the short names \<open>a\<close> and \<open>b\<close>, options that take no
  argument, and for \<open>c\<close> an option with a mandatory argument. Two scans that have the same
  operands and integrator's state, one with \<open>-abc X\<close> and the other with \<open>-a -b -c X\<close> as
  the next elements, followed by the same elements, end alike: same return value or
  exception, same operands, same integrator's state (so the same callbacks were called with
  the same arguments in the same order, whatever the callbacks do). In particular \<open>parse\<close>
  gives the same result, error text, operands and integrator's state on \<open>prog -abc X ...\<close>
  and on \<open>prog -a -b -c X ...\<close>.
\<close>

theorem C2_short_option_block:
  fixes cmd :: "'u Command"
  assumes a: "find (\<lambda>p. short_name p = Some ''a'') (options cmd) = Some oa" "\<not> truthy (arg oa)"
    and b: "find (\<lambda>p. short_name p = Some ''b'') (options cmd) = Some ob" "\<not> truthy (arg ob)"
    and c: "find (\<lambda>p. short_name p = Some ''c'') (options cmd) = Some oc" "truthy (arg oc)"
           "\<not> startswith_bracket (arg oc)"
  shows "(operands s = operands t \<and> ustate s = ustate t \<and>
          argc s = length (argv_list s) \<and> argc t = length (argv_list t) \<and>
          drop (argv_index s) (argv_list s) = ''-abc'' # X # rest \<and>
          drop (argv_index t) (argv_list t) = ''-a'' # ''-b'' # ''-c'' # X # rest \<longrightarrow>
            outcome (parse_loop cmd s) = outcome (parse_loop cmd t)) \<and>
         observed (parse_args cmd (prog # ''-abc'' # X # rest) u) =
           observed (parse_args cmd (prog # ''-a'' # ''-b'' # ''-c'' # X # rest) u)"
proof -
  have flags: "\<forall>f\<in>set ''ab''. f \<noteq> CHR ''-'' \<and>
             (\<exists>opt. find (\<lambda>p. short_name p = Some [f]) (options cmd) = Some opt \<and> \<not> truthy (arg opt))"
    using a b by simp
  have block: "outcome (parse_loop cmd s) = outcome (parse_loop cmd t)"
    if "operands s = operands t" "ustate s = ustate t"
      "argc s = length (argv_list s)" "argc t = length (argv_list t)"
      "drop (argv_index s) (argv_list s) = ''-abc'' # X # rest"
      "drop (argv_index t) (argv_list t) = ''-a'' # ''-b'' # ''-c'' # X # rest"
    for s t :: "'u session"
  proof -
    have "same_step (parse_loop cmd s) (parse_loop cmd t)"
      using that by (intro parse_loop_block [OF flags, of "''c''" s t "X # rest"]) simp_all
    then show ?thesis by (rule same_step_outcome)
  qed
  have "outcome (parse_loop cmd (initial (heap_of (prog # ''-abc'' # X # rest)) 0 u)) =
        outcome (parse_loop cmd (initial (heap_of (prog # ''-a'' # ''-b'' # ''-c'' # X # rest)) 0 u))"
    by (intro block) (simp_all add: same_rest_initial)
  then have "observed (parse_args cmd (prog # ''-abc'' # X # rest) u) =
           observed (parse_args cmd (prog # ''-a'' # ''-b'' # ''-c'' # X # rest) u)"
    by (simp add: parse_args_def observed_parse)
  with block show ?thesis by blast
qed

text \<open>The claim at \<open>prog -abc X y\<close>: three calls, \<open>c\<close> with \<open>X\<close>, and the operand \<open>y\<close>.\<close>

theorem C2_short_option_block_witness:
  "find (\<lambda>p. short_name p = Some ''a'') (options demo) = Some opt_all \<and> \<not> truthy (arg opt_all) \<and>
   find (\<lambda>p. short_name p = Some ''b'') (options demo) = Some opt_brief \<and> \<not> truthy (arg opt_brief) \<and>
   find (\<lambda>p. short_name p = Some ''c'') (options demo) = Some opt_config \<and> truthy (arg opt_config) \<and>
   \<not> startswith_bracket (arg opt_config) \<and>
   observed (parse_args demo [''prog'', ''-abc'', ''X'', ''y''] []) =
     (Returned False, [], [''y''], [(''a'', Call0), (''b'', Call0), (''c'', Call1 (Some ''X''))]) \<and>
   observed (parse_args demo [''prog'', ''-a'', ''-b'', ''-c'', ''X'', ''y''] []) =
     (Returned False, [], [''y''], [(''a'', Call0), (''b'', Call0), (''c'', Call1 (Some ''X''))]) \<and>
   outcome (parse_loop demo (initial (heap_of [''prog'', ''-abc'', ''X'', ''y'']) 0 [])) =
     outcome (parse_loop demo (initial (heap_of [''prog'', ''-a'', ''-b'', ''-c'', ''X'', ''y'']) 0 []))"
proof -
  have a: "find (\<lambda>p. short_name p = Some ''a'') (options demo) = Some opt_all" "\<not> truthy (arg opt_all)"
    and b: "find (\<lambda>p. short_name p = Some ''b'') (options demo) = Some opt_brief" "\<not> truthy (arg opt_brief)"
    and c: "find (\<lambda>p. short_name p = Some ''c'') (options demo) = Some opt_config" "truthy (arg opt_config)"
      "\<not> startswith_bracket (arg opt_config)"
    by (simp_all add: demo_defs)
  have sep: "observed (parse_args demo [''prog'', ''-a'', ''-b'', ''-c'', ''X'', ''y''] []) =
     (Returned False, [], [''y''], [(''a'', Call0), (''b'', Call0), (''c'', Call1 (Some ''X''))])"
    by code_simp
  note inst = C2_short_option_block [OF a b c, where X = "''X''" and rest = "[''y'']"
      and prog = "''prog''" and u = "[]"
      and s = "initial (heap_of [''prog'', ''-abc'', ''X'', ''y'']) 0 []"
      and t = "initial (heap_of [''prog'', ''-a'', ''-b'', ''-c'', ''X'', ''y'']) 0 []"]
  from inst sep have blk: "observed (parse_args demo [''prog'', ''-abc'', ''X'', ''y''] []) =
     (Returned False, [], [''y''], [(''a'', Call0), (''b'', Call0), (''c'', Call1 (Some ''X''))])"
    by simp
  from inst have out: "outcome (parse_loop demo (initial (heap_of [''prog'', ''-abc'', ''X'', ''y'']) 0 [])) =
     outcome (parse_loop demo (initial (heap_of [''prog'', ''-a'', ''-b'', ''-c'', ''X'', ''y'']) 0 []))"
    by (simp add: same_rest_initial)
  from a b c sep blk out show ?thesis by simp
qed

text \<open>
  Claim C3 says that an option with a mandatory argument gets the same value \<open>V\<close> whether
  \<open>V\<close> is attached or is the following element, for every string \<open>V\<close>. It fails for the
  empty string and the short form: \<open>-c\<close> with the empty string attached is \<open>-c\<close>, which
  takes the following element \<open>x\<close> as its argument, while \<open>-c\<close> followed by the empty
  string gets the empty string.
\<close>

theorem C3_counterexample:
  "ustate (final (parse_args demo [''prog'', ''-c'' @ [], ''x''] [])) = [(''c'', Call1 (Some ''x''))] \<and>
   ustate (final (parse_args demo [''prog'', ''-c'', [], ''x''] [])) = [(''c'', Call1 (Some []))]"
  by code_simp

text \<open>
  Claim C3, amended. Let \<open>opt\<close> be the option the lookup finds for a long name \<open>nm\<close> (not
  empty, without \<open>=\<close>) or for a short character \<open>c\<close> (not \<open>-\<close>), with a mandatory
  argument and a callback. For every string \<open>V\<close> in the long form (\<open>--nm=V\<close> against \<open>--nm\<close>
  followed by \<open>V\<close>) and every non-empty \<open>V\<close> in the short form (\<open>-cV\<close> against \<open>-c\<close>
  followed by \<open>V\<close>), one call of \<open>_parse\<close> calls the callback with \<open>V\<close> in both, and the
  two scans, started with the same operands and integrator's state and followed by the same
  elements, end alike.
\<close>

theorem C3_mandatory_argument:
  fixes cmd :: "'u Command"
  assumes mandatory: "truthy (arg opt)" "\<not> startswith_bracket (arg opt)"
    and handler: "callback opt = Some cb"
    and forms:
      "find (\<lambda>p. long_name p = Some nm) (options cmd) = Some opt \<and> nm \<noteq> [] \<and>
         CHR ''='' \<notin> set nm \<and> attached = ''--'' @ nm @ ''='' @ V \<and> separate = ''--'' @ nm \<or>
       find (\<lambda>p. short_name p = Some [c]) (options cmd) = Some opt \<and> c \<noteq> CHR ''-'' \<and>
         V \<noteq> [] \<and> attached = CHR ''-'' # c # V \<and> separate = [CHR ''-'', c]"
    and sessions: "operands s = operands t" "ustate s = ustate t"
      "argc s = length (argv_list s)" "argc t = length (argv_list t)"
      "drop (argv_index s) (argv_list s) = attached # rest"
      "drop (argv_index t) (argv_list t) = separate # V # rest"
  shows "priv_parse cmd s =
           (case cb (Call1 (Some V)) (ustate s) of
              Inl e \<Rightarrow> Raise e s
            | Inr u \<Rightarrow> Return True (s\<lparr>argv_index := argv_index s + 1, ustate := u\<rparr>)) \<and>
         priv_parse cmd t =
           (case cb (Call1 (Some V)) (ustate t) of
              Inl e \<Rightarrow> Raise e (t\<lparr>argv_index := argv_index t + 1\<rparr>)
            | Inr u \<Rightarrow> Return True (t\<lparr>argv_index := argv_index t + 2, ustate := u\<rparr>)) \<and>
         outcome (parse_loop cmd s) = outcome (parse_loop cmd t)"
proof -
  note ds = drop_element [OF sessions(5)]
  note dt = drop_element [OF sessions(6)]
  note dt2 = drop_element [OF dt(3)]
  from ds(1) dt(1) sessions have cur: "argv_index s < argc s" "argv_index t < argc t" by simp_all
  from dt2(1) sessions have nxt: "Suc (argv_index t) < argc t" by simp
  have tn: "take_next m t = Inr (Some V, t\<lparr>argv_index := argv_index t + 1\<rparr>)" for m
    using nxt dt2 sessions(4) by (simp add: take_next_def Let_def argv_list_def)
  have steps: "priv_parse cmd s =
           (case cb (Call1 (Some V)) (ustate s) of
              Inl e \<Rightarrow> Raise e s
            | Inr u \<Rightarrow> Return True (s\<lparr>argv_index := argv_index s + 1, ustate := u\<rparr>)) \<and>
         priv_parse cmd t =
           (case cb (Call1 (Some V)) (ustate t) of
              Inl e \<Rightarrow> Raise e (t\<lparr>argv_index := argv_index t + 1\<rparr>)
            | Inr u \<Rightarrow> Return True (t\<lparr>argv_index := argv_index t + 2, ustate := u\<rparr>))"
    using forms
  proof (elim disjE conjE)
    assume f: "find (\<lambda>p. long_name p = Some nm) (options cmd) = Some opt"
      and nm: "nm \<noteq> []" "CHR ''='' \<notin> set nm"
      and at: "attached = ''--'' @ nm @ ''='' @ V" and se: "separate = ''--'' @ nm"
    have "priv_parse cmd s = long_option cmd (''--'' @ nm @ ''='' @ V) s"
      using ds(2) at by (intro priv_parse_long [OF cur(1) sessions(3)]) simp_all
    moreover have "priv_parse cmd t = long_option cmd (''--'' @ nm) t"
      using dt(2) se nm by (intro priv_parse_long [OF cur(2) sessions(4)]) simp_all
    ultimately show ?thesis
      using f mandatory split_long_attached [OF nm(2), of V] split_long_plain [OF nm(2)] tn
      by (simp add: long_option_def long_arg_def invoke_Call1 [OF handler] advance_def
               split: sum.splits)
  next
    assume f: "find (\<lambda>p. short_name p = Some [c]) (options cmd) = Some opt"
      and c: "c \<noteq> CHR ''-''" and V: "V \<noteq> []"
      and at: "attached = CHR ''-'' # c # V" and se: "separate = [CHR ''-'', c]"
    have "priv_parse cmd s = short_option cmd (CHR ''-'' # c # V) s"
      using ds(2) at by (intro priv_parse_short [OF cur(1) sessions(3) _ c]) simp
    moreover have "priv_parse cmd t = short_option cmd (CHR ''-'' # c # []) t"
      using dt(2) se by (intro priv_parse_short [OF cur(2) sessions(4) _ c]) simp
    ultimately show ?thesis
      using f mandatory V tn
      by (simp add: short_option_def short_arg_def invoke_Call1 [OF handler] advance_def
               split: sum.splits)
  qed
  have "same_step (parse_loop cmd s) (parse_loop cmd t)"
  proof (cases "cb (Call1 (Some V)) (ustate s)")
    case (Inl e)
    with steps sessions(1,2) show ?thesis
      by (subst (1 2) parse_loop.simps) simp
  next
    case (Inr u)
    have "same_rest (s\<lparr>argv_index := argv_index s + 1, ustate := u\<rparr>)
                    (t\<lparr>argv_index := argv_index t + 2, ustate := u\<rparr>)"
      using sessions ds(3) dt2(3) by (simp add: same_rest_def argv_list_def)
    then have "same_step (parse_loop cmd (s\<lparr>argv_index := argv_index s + 1, ustate := u\<rparr>))
                         (parse_loop cmd (t\<lparr>argv_index := argv_index t + 2, ustate := u\<rparr>))"
      by (rule same_step_parse_loop)
    with Inr steps sessions(2) show ?thesis
      by (subst (1 2) parse_loop.simps) simp
  qed
  with steps show ?thesis by (simp add: same_step_outcome)
qed

text \<open>The amended claim at \<open>--config=V\<close>, \<open>--config V\<close>, \<open>-cV\<close> and \<open>-c V\<close>.\<close>

theorem C3_mandatory_argument_witness:
  "truthy (arg opt_config) \<and> \<not> startswith_bracket (arg opt_config) \<and>
   find (\<lambda>p. long_name p = Some ''config'') (options demo) = Some opt_config \<and>
   find (\<lambda>p. short_name p = Some ''c'') (options demo) = Some opt_config \<and>
   priv_parse demo (initial (heap_of [''prog'', ''--config=V'', ''y'']) 0 []) =
     Return True ((initial (heap_of [''prog'', ''--config=V'', ''y'']) 0 [])
                    \<lparr>argv_index := 2, ustate := [(''c'', Call1 (Some ''V''))]\<rparr>) \<and>
   priv_parse demo (initial (heap_of [''prog'', ''--config'', ''V'', ''y'']) 0 []) =
     Return True ((initial (heap_of [''prog'', ''--config'', ''V'', ''y'']) 0 [])
                    \<lparr>argv_index := 3, ustate := [(''c'', Call1 (Some ''V''))]\<rparr>) \<and>
   outcome (parse_loop demo (initial (heap_of [''prog'', ''--config=V'', ''y'']) 0 [])) =
     outcome (parse_loop demo (initial (heap_of [''prog'', ''--config'', ''V'', ''y'']) 0 [])) \<and>
   priv_parse demo (initial (heap_of [''prog'', ''-cV'', ''y'']) 0 []) =
     Return True ((initial (heap_of [''prog'', ''-cV'', ''y'']) 0 [])
                    \<lparr>argv_index := 2, ustate := [(''c'', Call1 (Some ''V''))]\<rparr>) \<and>
   priv_parse demo (initial (heap_of [''prog'', ''-c'', ''V'', ''y'']) 0 []) =
     Return True ((initial (heap_of [''prog'', ''-c'', ''V'', ''y'']) 0 [])
                    \<lparr>argv_index := 3, ustate := [(''c'', Call1 (Some ''V''))]\<rparr>) \<and>
   outcome (parse_loop demo (initial (heap_of [''prog'', ''-cV'', ''y'']) 0 [])) =
     outcome (parse_loop demo (initial (heap_of [''prog'', ''-c'', ''V'', ''y'']) 0 []))"
proof -
  have opt: "truthy (arg opt_config)" "\<not> startswith_bracket (arg opt_config)"
    "callback opt_config = Some (\<lambda>c u. Inr (u @ [(''c'', c)]))"
    by (simp_all add: opt_config_def record_call_def)
  have reg: "find (\<lambda>p. long_name p = Some ''config'') (options demo) = Some opt_config"
    "find (\<lambda>p. short_name p = Some ''c'') (options demo) = Some opt_config"
    by (simp_all add: demo_defs)
  let ?la = "initial (heap_of [''prog'', ''--config=V'', ''y'']) 0 []"
  let ?ls = "initial (heap_of [''prog'', ''--config'', ''V'', ''y'']) 0 []"
  let ?sa = "initial (heap_of [''prog'', ''-cV'', ''y'']) 0 []"
  let ?ss = "initial (heap_of [''prog'', ''-c'', ''V'', ''y'']) 0 []"
  have ini: "operands (initial (heap_of args) 0 []) = operands (initial (heap_of args') 0 [])"
    "ustate (initial (heap_of args) 0 []) = ustate (initial (heap_of args') 0 [])"
    "argc (initial (heap_of args) 0 []) = length (argv_list (initial (heap_of args) 0 []))"
    for args args' :: "string list"
    by (simp_all add: initial_def heap_of_def list_copy_def argv_list_def)
  have el: "drop (argv_index ?la) (argv_list ?la) = ''--config=V'' # [''y'']"
    "drop (argv_index ?ls) (argv_list ?ls) = ''--config'' # ''V'' # [''y'']"
    "drop (argv_index ?sa) (argv_list ?sa) = ''-cV'' # [''y'']"
    "drop (argv_index ?ss) (argv_list ?ss) = ''-c'' # ''V'' # [''y'']"
    by (simp_all add: initial_def heap_of_def list_copy_def argv_list_def)
  have long: "find (\<lambda>p. long_name p = Some ''config'') (options demo) = Some opt_config \<and>
      ''config'' \<noteq> [] \<and> CHR ''='' \<notin> set ''config'' \<and>
      ''--config=V'' = ''--'' @ ''config'' @ ''='' @ ''V'' \<and> ''--config'' = ''--'' @ ''config'' \<or>
      find (\<lambda>p. short_name p = Some [CHR ''c'']) (options demo) = Some opt_config \<and>
      CHR ''c'' \<noteq> CHR ''-'' \<and> ''V'' \<noteq> [] \<and> ''--config=V'' = CHR ''-'' # CHR ''c'' # ''V'' \<and>
      ''--config'' = [CHR ''-'', CHR ''c'']"
    using reg by simp
  have short: "find (\<lambda>p. long_name p = Some ''config'') (options demo) = Some opt_config \<and>
      ''config'' \<noteq> [] \<and> CHR ''='' \<notin> set ''config'' \<and>
      ''-cV'' = ''--'' @ ''config'' @ ''='' @ ''V'' \<and> ''-c'' = ''--'' @ ''config'' \<or>
      find (\<lambda>p. short_name p = Some [CHR ''c'']) (options demo) = Some opt_config \<and>
      CHR ''c'' \<noteq> CHR ''-'' \<and> ''V'' \<noteq> [] \<and> ''-cV'' = CHR ''-'' # CHR ''c'' # ''V'' \<and>
      ''-c'' = [CHR ''-'', CHR ''c'']"
    using reg by simp
  from C3_mandatory_argument [OF opt long ini(1) ini(2) ini(3) ini(3) el(1) el(2)]
       C3_mandatory_argument [OF opt short ini(1) ini(2) ini(3) ini(3) el(3) el(4)]
       opt(1,2) reg
  show ?thesis
    by (simp add: initial_def heap_of_def list_copy_def eval_nat_numeral)
qed

section \<open>The help screen\<close>

text \<open>
  The module constants. \<open>MAX_COLUMNS\<close> is what \<open>get_terminal_size()[0]\<close> returned when
  the module was loaded and is a parameter here. Python computes
  \<open>int(MAX_LINE_LENGTH // 1.618)\<close> in floating point; for the values \<open>MAX_LINE_LENGTH\<close> takes
  (at most 80) the quotient is never within rounding distance of a whole number, so the
  result is the floor of \<open>MAX_LINE_LENGTH * 1000 / 1618\<close>, written here with integers.
\<close>

definition MAX_LINE_LENGTH :: "int \<Rightarrow> int" where
  "MAX_LINE_LENGTH max_columns = (if max_columns > 80 then 80 else max_columns)"

definition MIN_DESCRIPTION_WIDTH :: "int \<Rightarrow> int" where
  "MIN_DESCRIPTION_WIDTH max_columns = (MAX_LINE_LENGTH max_columns * 1000) div 1618"

text \<open>
  \<open>" " * n\<close> (empty for a negative \<open>n\<close>), the slices \<open>s[:k]\<close> and \<open>s[k:]\<close> (a negative
  \<open>k\<close> counts from the end), and the text an f-string gives for a value that may be
  \<open>None\<close>.
\<close>

definition spaces :: "int \<Rightarrow> string" where
  "spaces n = replicate (nat n) (CHR '' '')"

definition slice_to :: "string \<Rightarrow> int \<Rightarrow> string" where
  "slice_to s k = (if k < 0 then take (nat (int (length s) + k)) s else take (nat k) s)"

definition slice_from :: "string \<Rightarrow> int \<Rightarrow> string" where
  "slice_from s k = (if k < 0 then drop (nat (int (length s) + k)) s else drop (nat k) s)"

fun str :: "string option \<Rightarrow> string" where
  "str None = ''None''"
| "str (Some s) = s"

text \<open>\<open>str.casefold\<close> on the ASCII letters; every other character is kept.\<close>

definition casefold :: "string \<Rightarrow> string" where
  "casefold s = map (\<lambda>c. if CHR ''A'' \<le> c \<and> c \<le> CHR ''Z'' then char_of (of_char c + (32::nat)) else c) s"

text \<open>
  The left-hand fragment of one option, and the sorted list of the fragments and
  descriptions of the options that are not hidden. \<open>list.sort\<close> is stable, as \<open>sort_key\<close>
  is.
\<close>

definition create_option_usage :: "'u Option \<Rightarrow> string" where
  "create_option_usage option =
     (let s = ''  '';
          s = (if truthy (short_name option) then
                 (let s = s @ ''-'' @ the (short_name option) in
                  if \<not> truthy (long_name option) then
                    (if truthy (arg option) then
                       (if startswith_bracket (arg option) then s @ the (arg option)
                        else s @ '' '' @ the (arg option))
                     else s)
                  else s @ '', '')
               else s @ ''    '');
          s = (if truthy (long_name option) then
                 (let s = s @ ''--'' @ the (long_name option) in
                  if truthy (arg option) then
                    (if startswith_bracket (arg option) then s @ ''[='' @ drop 1 (the (arg option))
                     else s @ '' '' @ the (arg option))
                  else s)
               else s)
      in s @ ''  '')"

definition create_option_usages :: "'u Command \<Rightarrow> (string \<times> string option) list" where
  "create_option_usages cmd =
     sort_key (\<lambda>usage. casefold (fst usage))
       (map (\<lambda>option. (create_option_usage option, description option))
          (filter (\<lambda>option. \<not> hidden option) (options cmd)))"

text \<open>The local functions \<open>get_indent\<close> and \<open>next_word_len\<close> of \<open>print_block\<close>.\<close>

function get_indent_loop :: "string \<Rightarrow> nat \<Rightarrow> bool \<Rightarrow> nat" where
  "get_indent_loop s indent bullet_point =
     (if indent < length s then
        (if \<not> bullet_point \<and> s ! indent \<in> set ''-*'' then
           (if indent + 1 < length s \<and> s ! (indent + 1) = CHR '' ''
            then get_indent_loop s (indent + 1) True
            else get_indent_loop s (indent + 1) bullet_point)
         else if s ! indent \<noteq> CHR '' '' then indent
         else get_indent_loop s (indent + 1) bullet_point)
      else indent)"
  by pat_completeness auto
termination
  by (relation "measure (\<lambda>(s, indent, b). length s - indent)") auto

declare get_indent_loop.simps [simp del]

definition get_indent :: "string \<Rightarrow> nat" where
  "get_indent s = get_indent_loop s 0 False"

fun next_word_loop :: "string \<Rightarrow> nat \<Rightarrow> bool \<Rightarrow> nat" where
  "next_word_loop [] i ignore_spaces = i"
| "next_word_loop (c # cs) i ignore_spaces =
     (if c = CHR '' '' then
        (if ignore_spaces then i else next_word_loop cs (i + 1) ignore_spaces)
      else if c = CHR 0x0A then (if i = 0 then 1 else i)
      else next_word_loop cs (i + 1) True)"

definition next_word_len :: "string \<Rightarrow> nat" where
  "next_word_len s = next_word_loop s 0 False"

text \<open>
  The variables of the loop of \<open>print_block\<close> and the text written to \<open>file\<close> so far. One
  iteration either leaves the loop, and the final \<open>print\<close> writes a newline, or goes on
  with new values.
\<close>

record layout =
  string :: string
  col :: int
  linebreak_encountered :: bool
  indentation :: nat
  sink :: string

text \<open>
  The branch \<open>if col == 0\<close>: it ends with \<open>continue\<close> after dropping a space, or falls
  through to the placement of the next word.
\<close>

datatype 'a flow = Continue 'a | Fall_through 'a

definition line_start :: "int \<Rightarrow> layout \<Rightarrow> layout flow" where
  "line_start start_col st =
     (let st = st\<lparr>col := start_col, sink := sink st @ spaces start_col\<rparr>;
          st = (if indentation st \<noteq> 0
                then st\<lparr>sink := sink st @ spaces (int (indentation st)),
                        col := col st + int (indentation st)\<rparr>
                else st)
      in if string st ! 0 = CHR '' '' then
           (if linebreak_encountered st
            then Fall_through (st\<lparr>indentation := get_indent (string st), linebreak_encountered := False\<rparr>)
            else Continue (st\<lparr>string := drop 1 (string st)\<rparr>))
         else Fall_through (st\<lparr>linebreak_encountered := False\<rparr>))"

text \<open>
  The placement, from \<open>remaining_cols = MAX_LINE_LENGTH - col\<close> on, with its two tests
  \<open>word_len > remaining_cols\<close> and
  \<open>col == start_col or (indentation and col == start_col + indentation)\<close>: a word that
  does not fit breaks the line, and at the start of a line it is cut at the width first.
\<close>

definition overflows :: "int \<Rightarrow> nat \<Rightarrow> layout \<Rightarrow> bool" where
  "overflows mll word_len st \<longleftrightarrow> (let remaining_cols = mll - col st in int word_len > remaining_cols)"

definition at_line_start :: "int \<Rightarrow> layout \<Rightarrow> bool" where
  "at_line_start start_col st \<longleftrightarrow>
     col st = start_col \<or> (indentation st \<noteq> 0 \<and> col st = start_col + int (indentation st))"

definition place :: "int \<Rightarrow> int \<Rightarrow> nat \<Rightarrow> layout \<Rightarrow> layout" where
  "place mll start_col word_len st =
     (if overflows mll word_len st then
        (let st = (if at_line_start start_col st
                   then st\<lparr>sink := sink st @ slice_to (string st) (mll - col st),
                           string := slice_from (string st) (mll - col st)\<rparr>
                   else st)
         in st\<lparr>sink := sink st @ [CHR 0x0A], col := 0\<rparr>)
      else st\<lparr>sink := sink st @ take word_len (string st),
              string := drop word_len (string st),
              col := col st + int word_len\<rparr>)"

definition block_step :: "int \<Rightarrow> int \<Rightarrow> layout \<Rightarrow> string + layout" where
  "block_step mll start_col st =
     (let word_len = next_word_len (string st) in
      if word_len = 0 then Inl (sink st @ [CHR 0x0A])
      else if string st ! 0 = CHR 0x0A then
        Inr (st\<lparr>sink := sink st @ [CHR 0x0A], col := 0, string := drop 1 (string st),
                linebreak_encountered := True, indentation := 0\<rparr>)
      else if col st = 0 then
        (case line_start start_col st of
           Continue st1 \<Rightarrow> Inr st1
         | Fall_through st1 \<Rightarrow> Inr (place mll start_col word_len st1))
      else Inr (place mll start_col word_len st))"

text \<open>
  The loop \<open>while True\<close>. It need not end, so it is a partial function: \<open>None\<close> is a loop
  that never leaves.
\<close>

partial_function (option) block_loop :: "int \<Rightarrow> int \<Rightarrow> layout \<Rightarrow> string option" where
  "block_loop mll start_col st =
     (case block_step mll start_col st of
        Inl out \<Rightarrow> Some out
      | Inr st1 \<Rightarrow> block_loop mll start_col st1)"

declare block_loop.simps [code]

definition print_block :: "int \<Rightarrow> string \<Rightarrow> int \<Rightarrow> int \<Rightarrow> string \<Rightarrow> string option" where
  "print_block mll s start_col indent f =
     block_loop mll (if start_col > indent then indent else start_col)
       \<lparr>string = s, col = start_col, linebreak_encountered = False, indentation = 0, sink = f\<rparr>"

text \<open>
  \<open>max(xs, key=...)\<close>: the first element with the greatest key; \<open>ValueError\<close> on an empty
  list.
\<close>

fun max_key :: "('a \<Rightarrow> nat) \<Rightarrow> 'a list \<Rightarrow> exn + 'a" where
  "max_key key [] = Inl ValueError"
| "max_key key (x # xs) = Inr (fold (\<lambda>y m. if key y > key m then y else m) xs x)"

text \<open>
  The value of \<open>longest\<close> once lines 356 to 358 of \<open>print_help\<close> have run, the padded
  fragment \<open>usage_string\<close>, and the loop over the entries. A description that is \<open>None\<close>
  makes \<open>len\<close> in \<open>next_word_len\<close> raise \<open>TypeError\<close>.
\<close>

definition description_column :: "int \<Rightarrow> (string \<times> string option) list \<Rightarrow> exn + int" where
  "description_column max_columns option_usages =
     (case max_key (\<lambda>usage. length (fst usage)) option_usages of
        Inl e \<Rightarrow> Inl e
      | Inr m \<Rightarrow>
          (let longest = int (length (fst m)) in
           if MAX_LINE_LENGTH max_columns - longest < MIN_DESCRIPTION_WIDTH max_columns
           then Inr (MAX_LINE_LENGTH max_columns - MIN_DESCRIPTION_WIDTH max_columns)
           else Inr longest))"

definition usage_string :: "int \<Rightarrow> string \<times> string option \<Rightarrow> string" where
  "usage_string longest option = fst option @ spaces (longest - int (length (fst option)))"

fun print_entries ::
  "int \<Rightarrow> int \<Rightarrow> (string \<times> string option) list \<Rightarrow> string \<Rightarrow> (exn option \<times> string) option" where
  "print_entries mll longest [] f = Some (None, f)"
| "print_entries mll longest (option # rest) f =
     (let f = f @ usage_string longest option in
      case snd option of
        None \<Rightarrow> Some (Some TypeError, f)
      | Some d \<Rightarrow>
          (case print_block mll d (int (length (usage_string longest option))) longest f of
             None \<Rightarrow> None
           | Some f \<Rightarrow> print_entries mll longest rest f))"

text \<open>
  \<open>print_help(cmd, file)\<close>: \<open>None\<close> when it never returns, otherwise the exception it
  raised, if any, and the text written.
\<close>

definition print_help :: "int \<Rightarrow> 'u Command \<Rightarrow> string \<Rightarrow> (exn option \<times> string) option" where
  "print_help max_columns cmd f =
     (let f = f @ ''Usage: '' @ name cmd @ '' '' @ str (usage cmd) @ [CHR 0x0A] in
      case (if truthy (manual cmd)
            then print_block (MAX_LINE_LENGTH max_columns) (CHR 0x0A # the (manual cmd)) 0 0 f
            else Some f) of
        None \<Rightarrow> None
      | Some f \<Rightarrow>
          if options cmd \<noteq> [] then
            (let f = f @ CHR 0x0A # ''Options:'' @ [CHR 0x0A];
                 option_usages = create_option_usages cmd in
             case description_column max_columns option_usages of
               Inl e \<Rightarrow> Some (Some e, f)
             | Inr longest \<Rightarrow> print_entries (MAX_LINE_LENGTH max_columns) longest option_usages f)
          else Some (None, f))"

section \<open>The column of the descriptions\<close>

lemma fold_max_key:
  fixes key :: "'a \<Rightarrow> nat"
  shows "key (fold (\<lambda>y m. if key y > key m then y else m) xs x) = Max (insert (key x) (key ` set xs))"
proof (induction xs arbitrary: x)
  case Nil
  show ?case by simp
next
  case (Cons y ys)
  show ?case
  proof (cases "key y > key x")
    case True
    let ?B = "insert (key y) (key ` set ys)"
    have fin: "finite ?B" "?B \<noteq> {}" by simp_all
    have "key y \<le> Max ?B" using fin by (intro Max_ge) simp_all
    with True have "key x \<le> Max ?B" by linarith
    then have "max (key x) (Max ?B) = Max ?B" by (rule max.absorb2)
    with Max_insert [OF fin, of "key x"] have "Max (insert (key x) ?B) = Max ?B" by simp
    with True show ?thesis by (simp add: Cons.IH)
  next
    case False
    let ?C = "insert (key x) (key ` set ys)"
    have fin: "finite ?C" "?C \<noteq> {}" by simp_all
    have "key x \<le> Max ?C" using fin by (intro Max_ge) simp_all
    with False have "key y \<le> Max ?C" by linarith
    then have "max (key y) (Max ?C) = Max ?C" by (rule max.absorb2)
    with Max_insert [OF fin, of "key y"] have "Max (insert (key y) ?C) = Max ?C" by simp
    with False show ?thesis by (simp add: Cons.IH insert_commute)
  qed
qed

lemma max_key_Max:
  fixes key :: "'a \<Rightarrow> nat"
  assumes "xs \<noteq> []"
  shows "\<exists>m. max_key key xs = Inr m \<and> key m = Max (key ` set xs)"
  using assms by (cases xs) (simp_all add: fold_max_key)

text \<open>
  Claim C6 says that the descriptions start at the greater of the longest fragment and
  \<open>MAX_LINE_LENGTH - MIN_DESCRIPTION_WIDTH\<close>. At 80 columns the longest fragment of the
  command above is 21 wide and \<open>MAX_LINE_LENGTH - MIN_DESCRIPTION_WIDTH\<close> is 31: the
  greater is 31, and the descriptions start at column 21.
\<close>

theorem C6_counterexample:
  "description_column 80 (create_option_usages demo) = Inr 21 \<and>
   Max ((\<lambda>usage. int (length (fst usage))) ` set (create_option_usages demo)) = 21 \<and>
   max (21::int) (MAX_LINE_LENGTH 80 - MIN_DESCRIPTION_WIDTH 80) = 31 \<and>
   print_help 80 demo [] =
     Some (None,
       ''Usage: prog [OPTION...] OPERAND...'' @ [CHR 0x0A] @ [CHR 0x0A] @
       ''Options:'' @ [CHR 0x0A] @
       ''  -a, --all          Select all.'' @ [CHR 0x0A] @
       ''  -b                 Be brief.'' @ [CHR 0x0A] @
       ''  -c, --config FILE  Read FILE.'' @ [CHR 0x0A])"
  by code_simp

text \<open>
  Claim C6, amended. For every non-empty list of fragments (of the options that are not
  hidden), the column \<open>print_help\<close> wraps the descriptions to is the smaller of the longest
  fragment and \<open>MAX_LINE_LENGTH - MIN_DESCRIPTION_WIDTH\<close>, so that a description is never
  narrower than \<open>MIN_DESCRIPTION_WIDTH\<close>. Every fragment is padded to that column; a
  fragment longer than the column is not cut, and its description starts right after it.
\<close>

theorem C6_description_column:
  assumes "option_usages \<noteq> []"
  shows "description_column max_columns option_usages =
           Inr (min (Max ((\<lambda>usage. int (length (fst usage))) ` set option_usages))
                    (MAX_LINE_LENGTH max_columns - MIN_DESCRIPTION_WIDTH max_columns)) \<and>
         (\<forall>option\<in>set option_usages.
            int (length (usage_string longest option)) = max (int (length (fst option))) longest)"
proof
  from max_key_Max [OF assms, of "\<lambda>usage. length (fst usage)"]
  obtain m where m: "max_key (\<lambda>usage. length (fst usage)) option_usages = Inr m"
    "length (fst m) = Max ((\<lambda>usage. length (fst usage)) ` set option_usages)"
    by blast
  have "int (Max ((\<lambda>usage. length (fst usage)) ` set option_usages)) =
        Max (int ` (\<lambda>usage. length (fst usage)) ` set option_usages)"
    using assms by (intro mono_Max_commute) (auto simp: mono_def)
  then have "int (length (fst m)) = Max ((\<lambda>usage. int (length (fst usage))) ` set option_usages)"
    by (simp add: m(2) image_image)
  with m(1) show "description_column max_columns option_usages =
           Inr (min (Max ((\<lambda>usage. int (length (fst usage))) ` set option_usages))
                    (MAX_LINE_LENGTH max_columns - MIN_DESCRIPTION_WIDTH max_columns))"
    by (auto simp: description_column_def Let_def min_def)
  show "\<forall>option\<in>set option_usages.
            int (length (usage_string longest option)) = max (int (length (fst option))) longest"
    by (auto simp: usage_string_def spaces_def)
qed

section \<open>A command whose options are all hidden\<close>

text \<open>
  Claim C7 says that rendering always completes, and that a command all of whose options
  are hidden gets no \<open>Options:\<close> section. \<open>print_help\<close> tests \<open>cmd.options\<close>, not the list
  of the options that are not hidden: with one hidden option it writes the header and then
  \<open>max\<close> raises \<open>ValueError\<close> on the empty list of fragments.
\<close>

theorem C7_hidden_options:
  "print_help 80 \<lparr>name = ''prog'', usage = Some ''[OPTION...]'', manual = None,
                  options = [opt_log]\<rparr> [] =
     Some (Some ValueError,
           ''Usage: prog [OPTION...]'' @ [CHR 0x0A] @ [CHR 0x0A] @ ''Options:'' @ [CHR 0x0A])"
  by code_simp

text \<open>
  The amended claim for the command above, at 80 columns (the longest fragment decides) and
  at 30 columns (the column is clamped to 12, and the fragment of \<open>-c\<close> runs over it).
\<close>

theorem C6_description_column_witness:
  "create_option_usages demo \<noteq> [] \<and>
   description_column 80 (create_option_usages demo) = Inr 21 \<and>
   description_column 30 (create_option_usages demo) = Inr 12 \<and>
   int (length (usage_string 12 (''  -c, --config FILE  '', Some ''Read FILE.''))) = 21 \<and>
   int (length (usage_string 12 (''  -b  '', Some ''Be brief.''))) = 12"
proof -
  have us: "create_option_usages demo =
    [(''  -a, --all  '', Some ''Select all.''), (''  -b  '', Some ''Be brief.''),
     (''  -c, --config FILE  '', Some ''Read FILE.'')]"
    by code_simp
  then have ne: "create_option_usages demo \<noteq> []" by simp
  have m: "MAX_LINE_LENGTH 80 - MIN_DESCRIPTION_WIDTH 80 = 31"
    "MAX_LINE_LENGTH 30 - MIN_DESCRIPTION_WIDTH 30 = 12"
    by (simp_all add: MAX_LINE_LENGTH_def MIN_DESCRIPTION_WIDTH_def)
  from C6_description_column [OF ne, of 80 12] C6_description_column [OF ne, of 30 12] ne
  show ?thesis
    by (simp add: us m)
qed

section \<open>The words of a wrapped text\<close>

text \<open>
  The fields of a text between separator characters, and its words: the fields that are not
  empty, as \<open>str.split()\<close> gives them.
\<close>

fun split_on :: "(char \<Rightarrow> bool) \<Rightarrow> string \<Rightarrow> string list" where
  "split_on sep [] = [[]]"
| "split_on sep (c # cs) =
     (if sep c then [] # split_on sep cs
      else (case split_on sep cs of [] \<Rightarrow> [[c]] | w # ws \<Rightarrow> (c # w) # ws))"

definition words_of :: "(char \<Rightarrow> bool) \<Rightarrow> string \<Rightarrow> string list" where
  "words_of sep s = filter (\<lambda>w. w \<noteq> []) (split_on sep s)"

text \<open>
  \<open>visits mll start_col st st'\<close>: the loop of \<open>print_block\<close>, started with the variables
  \<open>st\<close>, comes to the head of an iteration with the variables \<open>st'\<close>. \<open>cuts\<close> holds of
  the iterations that run the statements of lines 337 and 338, which cut the next word at
  the width.
\<close>

inductive visits :: "int \<Rightarrow> int \<Rightarrow> layout \<Rightarrow> layout \<Rightarrow> bool" for mll start_col where
  visits_here: "visits mll start_col st st"
| visits_next: "block_step mll start_col st = Inr st1 \<Longrightarrow> visits mll start_col st1 st2 \<Longrightarrow>
                visits mll start_col st st2"

definition cuts :: "int \<Rightarrow> int \<Rightarrow> layout \<Rightarrow> bool" where
  "cuts mll start_col st \<longleftrightarrow>
     (let word_len = next_word_len (string st) in
      word_len \<noteq> 0 \<and> string st ! 0 \<noteq> CHR 0x0A \<and>
      (case (if col st = 0 then line_start start_col st else Fall_through st) of
         Continue st1 \<Rightarrow> False
       | Fall_through st1 \<Rightarrow> overflows mll word_len st1 \<and> at_line_start start_col st1))"

lemma split_on_not_Nil [simp]: "split_on sep s \<noteq> []"
  by (induction s) (auto split: list.splits)

lemma split_on_append_sep:
  assumes "sep c"
  shows "split_on sep (a @ c # b) = split_on sep a @ split_on sep b"
proof (induction a)
  case Nil
  with assms show ?case by simp
next
  case (Cons x a)
  obtain w ws where "split_on sep a = w # ws"
    by (cases "split_on sep a") simp_all
  with Cons show ?case by simp
qed

lemma words_of_append_sep:
  "sep c \<Longrightarrow> words_of sep (a @ c # b) = words_of sep a @ words_of sep b"
  by (simp add: words_of_def split_on_append_sep)

lemma words_of_Nil [simp]: "words_of sep [] = []"
  by (simp add: words_of_def)

lemma words_of_sep_Cons: "sep c \<Longrightarrow> words_of sep (c # s) = words_of sep s"
  using words_of_append_sep [of sep c "[]" s] by simp

lemma words_of_sep_snoc: "sep c \<Longrightarrow> words_of sep (s @ [c]) = words_of sep s"
  using words_of_append_sep [of sep c s "[]"] by simp

lemma words_of_append:
  assumes "a = [] \<or> sep (last a) \<or> b = [] \<or> sep (hd b)"
  shows "words_of sep (a @ b) = words_of sep a @ words_of sep b"
proof -
  consider "a = []" | "b = []" | "a \<noteq> []" "sep (last a)" | "b \<noteq> []" "sep (hd b)"
    using assms by blast
  then show ?thesis
  proof cases
    case 3
    then obtain a' c where a: "a = a' @ [c]" "sep c"
      by (metis append_butlast_last_id)
    then show ?thesis
      using words_of_append_sep [of sep c a' b] words_of_sep_snoc [of sep c a'] by simp
  next
    case 4
    then obtain c b' where b: "b = c # b'" "sep c"
      by (cases b) auto
    then show ?thesis
      using words_of_append_sep [of sep c a b'] words_of_sep_Cons [of sep c b'] by simp
  qed simp_all
qed

lemma words_of_spaces: "sep (CHR '' '') \<Longrightarrow> words_of sep (s @ spaces n) = words_of sep s"
  unfolding spaces_def
proof (induction "nat n" arbitrary: n s)
  case 0
  then show ?case by simp
next
  case (Suc k)
  then have "replicate (nat n) (CHR '' '') = CHR '' '' # replicate k (CHR '' '')"
    by (metis replicate_Suc)
  moreover have "words_of sep ((s @ [CHR '' '']) @ replicate (nat (int k)) (CHR '' '')) =
                 words_of sep (s @ [CHR '' ''])"
    using Suc by (intro Suc.hyps(1)) simp_all
  ultimately show ?case
    using Suc.prems by (simp add: words_of_sep_snoc)
qed

text \<open>
  What \<open>next_word_len\<close> returns on a text that does not start with a newline: the length of
  a prefix without newline that ends before a space, before a newline or with the text.
\<close>

lemma next_word_loop_props:
  assumes "i > 0 \<or> s = [] \<or> hd s \<noteq> CHR 0x0A"
  shows "i \<le> next_word_loop s i ig \<and> next_word_loop s i ig \<le> i + length s \<and>
         (drop (next_word_loop s i ig - i) s = [] \<or>
          hd (drop (next_word_loop s i ig - i) s) = CHR '' '' \<or>
          hd (drop (next_word_loop s i ig - i) s) = CHR 0x0A) \<and>
         CHR 0x0A \<notin> set (take (next_word_loop s i ig - i) s)"
  using assms
proof (induction s arbitrary: i ig)
  case Nil
  show ?case by simp
next
  case (Cons c cs)
  have step: "i \<le> r \<and> r \<le> i + length (c # cs) \<and>
         (drop (r - i) (c # cs) = [] \<or> hd (drop (r - i) (c # cs)) = CHR '' '' \<or>
          hd (drop (r - i) (c # cs)) = CHR 0x0A) \<and>
         CHR 0x0A \<notin> set (take (r - i) (c # cs))"
    if r: "r = next_word_loop cs (i + 1) g" and c: "c \<noteq> CHR 0x0A" for r g
  proof -
    from Cons.IH [of "i + 1" g] r
    have ih: "i + 1 \<le> r" "r \<le> i + 1 + length cs"
      "drop (r - (i + 1)) cs = [] \<or> hd (drop (r - (i + 1)) cs) = CHR '' '' \<or>
       hd (drop (r - (i + 1)) cs) = CHR 0x0A"
      "CHR 0x0A \<notin> set (take (r - (i + 1)) cs)"
      by simp_all
    from ih(1) have "r - i = Suc (r - (i + 1))" by simp
    with ih c show ?thesis by simp
  qed
  show ?case
  proof (cases "c = CHR '' ''")
    case True
    then show ?thesis using step [of _ ig] by (cases ig) simp_all
  next
    case False
    show ?thesis
    proof (cases "c = CHR 0x0A")
      case True
      with Cons.prems show ?thesis by simp
    next
      case nl: False
      with False step [of _ True] show ?thesis by simp
    qed
  qed
qed

lemma next_word_len_Nil [simp]: "next_word_len [] = 0"
  by (simp add: next_word_len_def)

lemma next_word_len_pos: "s \<noteq> [] \<Longrightarrow> 0 < next_word_len s"
proof (cases s)
  case (Cons c cs)
  have "1 \<le> next_word_loop cs 1 g" for g
    using next_word_loop_props [of 1 cs g] by simp
  with Cons show ?thesis
    by (simp add: next_word_len_def) (metis Suc_le_lessD One_nat_def)
qed simp

lemma next_word_len_eq_0 [simp]: "next_word_len s = 0 \<longleftrightarrow> s = []"
  using next_word_len_pos [of s] by (cases "s = []") simp_all

lemma next_word_len_word:
  assumes "s \<noteq> []" and "s ! 0 \<noteq> CHR 0x0A"
  shows "next_word_len s \<le> length s"
    and "drop (next_word_len s) s = [] \<or> hd (drop (next_word_len s) s) = CHR '' '' \<or>
         hd (drop (next_word_len s) s) = CHR 0x0A"
    and "CHR 0x0A \<notin> set (take (next_word_len s) s)"
proof -
  from assms have "hd s \<noteq> CHR 0x0A" by (cases s) simp_all
  then have p: "(0::nat) > 0 \<or> s = [] \<or> hd s \<noteq> CHR 0x0A" by simp
  from next_word_loop_props [OF p, of False]
  show "next_word_len s \<le> length s"
    and "drop (next_word_len s) s = [] \<or> hd (drop (next_word_len s) s) = CHR '' '' \<or>
         hd (drop (next_word_len s) s) = CHR 0x0A"
    and "CHR 0x0A \<notin> set (take (next_word_len s) s)"
    by (simp_all add: next_word_len_def)
qed

text \<open>
  What an iteration that does not cut keeps: the words written since the call, followed by
  the words still to be written, are the words of the text; and the text gets shorter, or
  stays while the column goes back to 0.
\<close>

definition word_inv :: "(char \<Rightarrow> bool) \<Rightarrow> string \<Rightarrow> string list \<Rightarrow> layout \<Rightarrow> bool" where
  "word_inv sep f target st \<longleftrightarrow>
     (\<exists>out. sink st = f @ out \<and>
        words_of sep out @ words_of sep (string st) = target \<and>
        (out = [] \<or> sep (last out) \<or> string st = [] \<or> sep (hd (string st))) \<and>
        (col st = 0 \<longrightarrow> out = [] \<or> sep (last out))) \<and>
     0 \<le> col st \<and> (linebreak_encountered st \<longrightarrow> indentation st = 0)"

definition layout_measure :: "layout \<Rightarrow> nat" where
  "layout_measure st = 2 * length (string st) + (if col st = 0 then 0 else 1)"

lemma last_spaces: "0 < n \<Longrightarrow> last (out @ spaces n) = CHR '' ''"
  by (simp add: spaces_def)

lemma spaces_eq_Nil: "spaces n = [] \<longleftrightarrow> n \<le> 0"
  by (simp add: spaces_def)

lemma boundary_spaces:
  "sep (CHR '' '') \<Longrightarrow> x = [] \<or> sep (last x) \<Longrightarrow>
     x @ spaces n = [] \<or> sep (last (x @ spaces n))"
  by (cases "nat n") (auto simp: spaces_def)

lemma words_of_single: "sep c \<Longrightarrow> words_of sep [c] = []"
  using words_of_sep_Cons [of sep c "[]"] by simp

lemma word_inv_step:
  assumes sep: "sep (CHR '' '')" "sep (CHR 0x0A)" and sc: "0 \<le> start_col"
    and inv: "word_inv sep f target st"
    and nocut: "\<not> cuts mll start_col st"
    and step: "block_step mll start_col st = Inr st'"
  shows "word_inv sep f target st' \<and> layout_measure st' < layout_measure st"
proof -
  from inv obtain out where out: "sink st = f @ out"
    "words_of sep out @ words_of sep (string st) = target"
    "out = [] \<or> sep (last out) \<or> string st = [] \<or> sep (hd (string st))"
    "col st = 0 \<longrightarrow> out = [] \<or> sep (last out)"
    and col: "0 \<le> col st" and lb: "linebreak_encountered st \<longrightarrow> indentation st = 0"
    unfolding word_inv_def by blast
  from step have ne: "string st \<noteq> []"
    by (auto simp: block_step_def Let_def split: if_splits)
  then obtain c cs where s: "string st = c # cs" by (cases "string st") auto
  define wl where "wl = next_word_len (string st)"
  have wl: "0 < wl" using ne by (simp add: wl_def next_word_len_pos)
  show ?thesis
  proof (cases "c = CHR 0x0A")
    case True
    with step s have st': "st' = st\<lparr>sink := sink st @ [CHR 0x0A], col := 0, string := cs,
                linebreak_encountered := True, indentation := 0\<rparr>"
      by (auto simp: block_step_def Let_def)
    have "words_of sep (out @ [CHR 0x0A]) @ words_of sep cs = target"
      using out(2) s True sep by (simp add: words_of_sep_snoc words_of_sep_Cons)
    then show ?thesis
      using st' out(1) sep s by (auto simp: word_inv_def layout_measure_def)
  next
    case False
    then have c: "string st ! 0 \<noteq> CHR 0x0A" using s by simp
    note w = next_word_len_word [OF ne c, folded wl_def]
    let ?w = "take wl (string st)" and ?r = "drop wl (string st)"
    have hdw: "hd ?w = hd (string st)" "?w \<noteq> []" using wl ne by (simp_all add: s)
    have fits: "words_of sep (o1 @ ?w) @ words_of sep ?r = target"
      if "words_of sep o1 = words_of sep out"
        and "o1 = [] \<or> sep (last o1) \<or> sep (hd (string st))" for o1
    proof -
      have "words_of sep (o1 @ ?w) = words_of sep o1 @ words_of sep ?w"
        using that(2) hdw by (intro words_of_append) auto
      moreover have "words_of sep (?w @ ?r) = words_of sep ?w @ words_of sep ?r"
        using w(2) sep by (intro words_of_append) auto
      ultimately show ?thesis using that(1) out(2) by simp
    qed
    have rest: "?r = [] \<or> sep (hd ?r)" using w(2) sep by auto
    have len: "length ?r < length (string st)" using wl ne by simp
    show ?thesis
    proof (cases "col st = 0")
      case col0: True
      define o1 where "o1 = out @ spaces start_col @ (if indentation st \<noteq> 0 then spaces (int (indentation st)) else [])"
      define c1 where "c1 = start_col + (if indentation st \<noteq> 0 then int (indentation st) else 0)"
      have o1w: "words_of sep o1 = words_of sep out"
        using sep(1) words_of_spaces [of sep "out @ spaces start_col"] words_of_spaces [of sep out]
        by (simp add: o1_def)
      have "out @ spaces start_col = [] \<or> sep (last (out @ spaces start_col))"
        using out(4) col0 sep(1) boundary_spaces [where sep = sep and x = out and n = start_col]
        by simp
      then have o1b: "o1 = [] \<or> sep (last o1)"
        using boundary_spaces [where sep = sep and x = "out @ spaces start_col"
            and n = "int (indentation st)"] sep(1)
        by (simp add: o1_def)
      have c1: "0 \<le> c1" using sc by (simp add: c1_def)
      show ?thesis
      proof (cases "c = CHR '' '' \<and> \<not> linebreak_encountered st")
        case True
        with step s False col0 have st': "st' = st\<lparr>col := c1, sink := f @ o1, string := cs\<rparr>"
          by (auto simp: block_step_def line_start_def Let_def c1_def o1_def out(1))
        have "words_of sep o1 @ words_of sep cs = target"
          using o1w out(2) s True sep by (simp add: words_of_sep_Cons)
        with st' o1b c1 lb True s show ?thesis
          by (auto simp: word_inv_def layout_measure_def)
      next
        case nc: False
        define st1 where "st1 = st\<lparr>col := c1, sink := f @ o1,
            indentation := (if c = CHR '' '' then get_indent (string st) else indentation st),
            linebreak_encountered := False\<rparr>"
        from nc s have ls: "line_start start_col st = Fall_through st1"
          by (auto simp: line_start_def Let_def st1_def c1_def o1_def out(1))
        have als: "at_line_start start_col st1"
          using lb nc by (auto simp: at_line_start_def st1_def c1_def)
        from nocut ls col0 c wl ne als have nov: "\<not> overflows mll wl st1"
          by (simp add: cuts_def Let_def wl_def)
        from step ls col0 c wl ne nov
        have st': "st' = st1\<lparr>sink := sink st1 @ ?w, string := ?r, col := col st1 + int wl\<rparr>"
          by (simp add: block_step_def Let_def wl_def [symmetric] place_def st1_def)
        have "words_of sep (o1 @ ?w) @ words_of sep ?r = target"
          using o1w o1b by (intro fits) auto
        with st' rest c1 wl len show ?thesis
          by (auto simp: word_inv_def layout_measure_def st1_def)
      qed
    next
      case coln: False
      show ?thesis
      proof (cases "overflows mll wl st")
        case True
        with nocut coln c wl ne have "\<not> at_line_start start_col st"
          by (simp add: cuts_def Let_def wl_def)
        with step coln c wl ne True
        have st': "st' = st\<lparr>sink := sink st @ [CHR 0x0A], col := 0\<rparr>"
          by (simp add: block_step_def Let_def wl_def [symmetric] place_def)
        have "words_of sep (out @ [CHR 0x0A]) @ words_of sep (string st) = target"
          using out(2) sep by (simp add: words_of_sep_snoc)
        with st' out(1) sep coln lb show ?thesis
          by (auto simp: word_inv_def layout_measure_def)
      next
        case nov: False
        with step coln c wl ne
        have st': "st' = st\<lparr>sink := sink st @ ?w, string := ?r, col := col st + int wl\<rparr>"
          by (simp add: block_step_def Let_def wl_def [symmetric] place_def)
        have "words_of sep (out @ ?w) @ words_of sep ?r = target"
          using out(3) ne by (intro fits) auto
        with st' out(1) rest col wl len lb show ?thesis
          by (auto simp: word_inv_def layout_measure_def)
      qed
    qed
  qed
qed

lemma word_inv_exit:
  assumes "sep (CHR 0x0A)" and "word_inv sep f target st"
    and "block_step mll start_col st = Inl res"
  shows "\<exists>out. res = f @ out \<and> words_of sep out = target"
proof -
  from assms(3) have "string st = []" "res = sink st @ [CHR 0x0A]"
    by (auto simp: block_step_def Let_def split: if_splits flow.splits)
  with assms(1,2) show ?thesis
    by (auto simp: word_inv_def words_of_sep_snoc words_of_single)
qed

lemma visits_step:
  "block_step mll start_col st = Inr st1 \<Longrightarrow> visits mll start_col st1 st2 \<Longrightarrow>
     visits mll start_col st st2"
  by (rule visits_next)

lemma visits_unfold:
  "(\<forall>st'. visits mll start_col st st' \<longrightarrow> P st') \<longleftrightarrow>
     P st \<and> (case block_step mll start_col st of
               Inl res \<Rightarrow> True
             | Inr st1 \<Rightarrow> (\<forall>st'. visits mll start_col st1 st' \<longrightarrow> P st'))"
proof (cases "block_step mll start_col st")
  case (Inl res)
  have "visits mll start_col st st' \<Longrightarrow> st' = st" for st'
    by (erule visits.cases) (use Inl in auto)
  with Inl show ?thesis by (auto intro: visits_here)
next
  case (Inr st1)
  have "visits mll start_col st st' \<Longrightarrow> st' = st \<or> visits mll start_col st1 st'" for st'
    by (erule visits.cases) (use Inr in auto)
  with Inr show ?thesis by (auto intro: visits_here visits_next)
qed

lemma block_loop_words:
  assumes sep: "sep (CHR '' '')" "sep (CHR 0x0A)" and sc: "0 \<le> start_col"
  shows "word_inv sep f target st \<Longrightarrow>
         (\<forall>st'. visits mll start_col st st' \<longrightarrow> \<not> cuts mll start_col st') \<Longrightarrow>
         \<exists>out. block_loop mll start_col st = Some (f @ out) \<and> words_of sep out = target"
proof (induction "layout_measure st" arbitrary: st rule: less_induct)
  case less
  show ?case
  proof (cases "block_step mll start_col st")
    case (Inl res)
    from word_inv_exit [where sep = sep, OF sep(2) less.prems(1) Inl] Inl show ?thesis
      by (subst block_loop.simps) simp
  next
    case (Inr st1)
    from less.prems(2) have nocut: "\<not> cuts mll start_col st"
      by (simp add: visits_here)
    from word_inv_step [where sep = sep, OF sep sc less.prems(1) nocut Inr]
    have inv: "word_inv sep f target st1" and m: "layout_measure st1 < layout_measure st"
      by simp_all
    have "\<forall>st'. visits mll start_col st1 st' \<longrightarrow> \<not> cuts mll start_col st'"
      using less.prems(2) Inr by (auto intro: visits_next)
    from less.hyps [OF m inv this] Inr show ?thesis
      by (subst block_loop.simps) simp
  qed
qed

text \<open>The ASCII characters for which \<open>str.isspace\<close> holds.\<close>

definition whitespace :: "char \<Rightarrow> bool" where
  "whitespace c \<longleftrightarrow> c \<in> set [CHR 0x09, CHR 0x0A, CHR 0x0B, CHR 0x0C, CHR 0x0D,
                                 CHR 0x1C, CHR 0x1D, CHR 0x1E, CHR 0x1F, CHR 0x20]"

text \<open>
  Claim C9 says that the words of the rendered manual are the words of the manual, for every
  manual text. A word that is longer than a line is cut: at 80 columns a word of 81 letters
  comes out as a word of 80 letters and a word of one letter.
\<close>

theorem C9_counterexample:
  "print_block 80 (CHR 0x0A # replicate 81 (CHR ''a'')) 0 0 [] =
     Some (CHR 0x0A # replicate 80 (CHR ''a'') @ CHR 0x0A # ''a'' @ [CHR 0x0A]) \<and>
   words_of whitespace (CHR 0x0A # replicate 80 (CHR ''a'') @ CHR 0x0A # ''a'' @ [CHR 0x0A]) =
     [replicate 80 (CHR ''a''), ''a''] \<and>
   words_of whitespace (replicate 81 (CHR ''a'')) = [replicate 81 (CHR ''a'')]"
  by code_simp

text \<open>
  Claim C9, amended. For every manual text during whose rendering no word is cut (no word,
  with the spaces before it, is longer than the room of a fresh line), the call
  \<open>print_block(f"\n{cmd.manual}", 0, 0, file)\<close> of \<open>print_help\<close> returns, and the words of
  what it has written are the words of the manual, in the same order: none dropped, none
  twice, none altered. Words are split at any set of separators that has the space and the
  newline.
\<close>

theorem C9_manual_words:
  assumes "sep (CHR '' '')" and "sep (CHR 0x0A)"
    and "\<forall>st. visits mll 0 \<lparr>string = CHR 0x0A # manual_text, col = 0, linebreak_encountered = False,
                            indentation = 0, sink = f\<rparr> st \<longrightarrow> \<not> cuts mll 0 st"
  shows "\<exists>out. print_block mll (CHR 0x0A # manual_text) 0 0 f = Some (f @ out) \<and>
               words_of sep out = words_of sep manual_text"
proof -
  let ?st = "\<lparr>string = CHR 0x0A # manual_text, col = 0, linebreak_encountered = False,
              indentation = 0, sink = f\<rparr>"
  have "word_inv sep f (words_of sep manual_text) ?st"
    using assms(2) by (simp add: word_inv_def words_of_sep_Cons)
  from block_loop_words [where sep = sep, OF assms(1,2) _ this assms(3)]
  show ?thesis by (simp add: print_block_def)
qed

text \<open>
  The amended claim at 8 columns, for a manual of two lines, one wrapped and one with a
  bullet.
\<close>

theorem C9_manual_words_witness:
  "\<exists>out. print_block 8 (CHR 0x0A # ''ab cde  fg'' @ CHR 0x0A # ''  - hi jk'') 0 0 ''Usage: prog'' =
            Some (''Usage: prog'' @ out) \<and>
         words_of whitespace out = [''ab'', ''cde'', ''fg'', ''-'', ''hi'', ''jk'']"
proof -
  have ws: "whitespace (CHR '' '')" "whitespace (CHR 0x0A)"
    by (simp_all add: whitespace_def)
  have w: "words_of whitespace (''ab cde  fg'' @ CHR 0x0A # ''  - hi jk'') =
             [''ab'', ''cde'', ''fg'', ''-'', ''hi'', ''jk'']"
    by code_simp
  have "\<forall>st. visits 8 0 \<lparr>string = CHR 0x0A # ''ab cde  fg'' @ CHR 0x0A # ''  - hi jk'', col = 0,
                          linebreak_encountered = False, indentation = 0, sink = ''Usage: prog''\<rparr> st
          \<longrightarrow> \<not> cuts 8 0 st"
    by (simp add: visits_unfold block_step_def line_start_def place_def cuts_def overflows_def
                  at_line_start_def next_word_len_def get_indent_def get_indent_loop.simps
                  spaces_def Let_def)
  from C9_manual_words [where sep = whitespace, OF ws this] w show ?thesis
    by simp
qed

section \<open>The lines of a wrapped text\<close>

text \<open>
  The lines of a text, and the indentations \<open>get_indent\<close> measures in it: one for every
  line that follows an explicit line break and begins with a space.
\<close>

definition lines_of :: "string \<Rightarrow> string list" where
  "lines_of s = split_on (\<lambda>c. c = CHR 0x0A) s"

fun indents :: "string \<Rightarrow> nat list" where
  "indents [] = []"
| "indents (c # cs) =
     (if c = CHR 0x0A \<and> cs \<noteq> [] \<and> hd cs = CHR '' '' then get_indent cs # indents cs
      else indents cs)"


lemma split_on_no_sep: "\<forall>c\<in>set x. \<not> sep c \<Longrightarrow> split_on sep x = [x]"
  by (induction x) auto

lemma lines_of_newline: "lines_of (a @ [CHR 0x0A]) = lines_of a @ [[]]"
  by (simp add: lines_of_def split_on_append_sep)

lemma split_on_append_plain:
  "\<forall>c\<in>set x. \<not> sep c \<Longrightarrow>
     split_on sep (a @ x) = butlast (split_on sep a) @ [last (split_on sep a) @ x]"
proof (induction a)
  case Nil
  then show ?case by (simp add: split_on_no_sep)
next
  case (Cons c a)
  obtain w ws where s: "split_on sep a = w # ws"
    by (cases "split_on sep a") simp_all
  with Cons show ?case
    by (cases ws) (auto simp: split_on_no_sep)
qed

lemma lines_of_plain:
  "CHR 0x0A \<notin> set x \<Longrightarrow> lines_of (a @ x) = butlast (lines_of a) @ [last (lines_of a) @ x]"
  unfolding lines_of_def by (rule split_on_append_plain) auto

text \<open>
  What every iteration keeps, when the indent column and every measured indentation leave
  room on a line. \<open>lines_ok\<close>: no line written so far is longer than the width, and \<open>col\<close>
  is the length of the line being written. \<open>para\<close>: the text still to be written is the
  end of the whole text, the part of its current line already written has no newline, and
  \<open>indentation\<close> is what \<open>get_indent\<close> measured on that line if the line follows an
  explicit line break and begins with a space, and 0 otherwise.
\<close>

definition measured :: "string \<Rightarrow> nat" where
  "measured t = (if t \<noteq> [] \<and> hd t = CHR '' '' then get_indent t else 0)"

definition lines_ok :: "int \<Rightarrow> string \<Rightarrow> int \<Rightarrow> bool" where
  "lines_ok mll snk c \<longleftrightarrow>
     0 \<le> c \<and> c \<le> mll \<and> (\<forall>l\<in>set (lines_of snk). int (length l) \<le> mll) \<and>
     int (length (last (lines_of snk))) = c"

definition para :: "string \<Rightarrow> string \<Rightarrow> bool \<Rightarrow> nat \<Rightarrow> bool" where
  "para s txt lb ind \<longleftrightarrow>
     (\<exists>q. CHR 0x0A \<notin> set q \<and>
        (s = q @ txt \<and> \<not> lb \<and> ind = 0 \<or>
         (\<exists>p. s = p @ CHR 0x0A # q @ txt \<and>
              (if lb then q = [] \<and> ind = 0 else ind = measured (q @ txt)))))"

definition layout_inv :: "int \<Rightarrow> int \<Rightarrow> string \<Rightarrow> layout \<Rightarrow> bool" where
  "layout_inv mll start_col s st \<longleftrightarrow>
     lines_ok mll (sink st) (col st) \<and> start_col + int (indentation st) < mll \<and>
     para s (string st) (linebreak_encountered st) (indentation st) \<and>
     (linebreak_encountered st \<longrightarrow> col st = 0)"

lemma lines_ok_plain:
  assumes "lines_ok mll snk c" and "CHR 0x0A \<notin> set x" and "c + int (length x) \<le> mll"
  shows "lines_ok mll (snk @ x) (c + int (length x))"
proof -
  have "l \<in> set (butlast (lines_of snk)) \<Longrightarrow> int (length l) \<le> mll" for l
    using assms(1) by (auto simp: lines_ok_def dest: in_set_butlastD)
  with assms show ?thesis
    by (auto simp: lines_ok_def lines_of_plain)
qed

lemma lines_ok_newline:
  assumes "lines_ok mll snk c"
  shows "lines_ok mll (snk @ [CHR 0x0A]) 0"
  using assms by (auto simp: lines_ok_def lines_of_newline)

lemma lines_ok_spaces:
  assumes "lines_ok mll snk c" and "0 \<le> n" and "c + n \<le> mll"
  shows "lines_ok mll (snk @ spaces n) (c + n)"
  using lines_ok_plain [OF assms(1), of "spaces n"] assms(2,3)
  by (simp add: spaces_def)

lemma para_newline:
  assumes "para s (CHR 0x0A # cs) lb ind"
  shows "para s cs True 0"
proof -
  from assms obtain q where q: "CHR 0x0A \<notin> set q"
    and d: "s = q @ CHR 0x0A # cs \<or> (\<exists>p. s = p @ CHR 0x0A # q @ CHR 0x0A # cs)"
    unfolding para_def by blast
  from d obtain p where "s = p @ CHR 0x0A # cs"
  proof
    assume "s = q @ CHR 0x0A # cs"
    then show ?thesis by (rule that)
  next
    assume "\<exists>p. s = p @ CHR 0x0A # q @ CHR 0x0A # cs"
    then obtain p where "s = (p @ CHR 0x0A # q) @ CHR 0x0A # cs" by auto
    then show ?thesis by (rule that)
  qed
  then have "s = p @ CHR 0x0A # [] @ cs" by simp
  then show ?thesis
    unfolding para_def by (intro exI [of _ "[]"]) auto
qed

lemma para_consume:
  assumes "para s (x @ r) False ind" and "CHR 0x0A \<notin> set x"
  shows "para s r False ind"
proof -
  from assms(1) obtain q where q: "CHR 0x0A \<notin> set q"
    and d: "s = q @ x @ r \<and> ind = 0 \<or>
            (\<exists>p. s = p @ CHR 0x0A # q @ x @ r \<and> ind = measured (q @ x @ r))"
    unfolding para_def by auto
  from q assms(2) have "CHR 0x0A \<notin> set (q @ x)" by simp
  moreover from d have "s = (q @ x) @ r \<and> ind = 0 \<or>
            (\<exists>p. s = p @ CHR 0x0A # (q @ x) @ r \<and> ind = measured ((q @ x) @ r))"
    by simp
  ultimately show ?thesis
    unfolding para_def by (intro exI [of _ "q @ x"]) auto
qed

lemma para_fall:
  assumes "para s txt lb ind" and "txt \<noteq> []"
  shows "para s txt False (if lb \<and> hd txt = CHR '' '' then get_indent txt else ind)"
proof (cases lb)
  case True
  with assms(1) obtain p where p: "s = p @ CHR 0x0A # [] @ txt" and ind: "ind = 0"
    unfolding para_def by auto
  have "(if lb \<and> hd txt = CHR '' '' then get_indent txt else ind) = measured ([] @ txt)"
    using True ind assms(2) by (simp add: measured_def)
  with p show ?thesis
    unfolding para_def by (intro exI [of _ "[]"]) auto
next
  case False
  with assms(1) show ?thesis by simp
qed

lemma para_not_lb: "para s txt lb ind \<Longrightarrow> lb \<Longrightarrow> ind = 0"
  unfolding para_def by auto

lemma indents_mem:
  "s = p @ CHR 0x0A # t \<Longrightarrow> t \<noteq> [] \<Longrightarrow> hd t = CHR '' '' \<Longrightarrow> get_indent t \<in> set (indents s)"
  by (induction p arbitrary: s) auto

lemma para_room:
  assumes "para s txt lb ind" and "\<forall>k\<in>set (indents s). start_col + int k < mll"
    and "start_col < mll"
  shows "start_col + int ind < mll"
proof (cases "ind = 0")
  case False
  with assms(1) obtain p q where "s = p @ CHR 0x0A # q @ txt" "ind = measured (q @ txt)"
    unfolding para_def by (auto split: if_splits)
  with False indents_mem [of s p "q @ txt"] have "ind \<in> set (indents s)"
    by (auto simp: measured_def split: if_splits)
  with assms(2) show ?thesis by simp
qed (use assms(3) in simp)

lemma layout_inv_place:
  assumes sc: "0 \<le> start_col" "start_col < mll"
    and ne: "string st \<noteq> []" "string st ! 0 \<noteq> CHR 0x0A"
    and lo: "lines_ok mll (sink st) (col st)"
    and rm: "start_col + int (indentation st) < mll"
    and pa: "para s (string st) False (indentation st)"
    and lb: "\<not> linebreak_encountered st"
    and start: "at_line_start start_col st \<or> n = 1"
  shows "layout_inv mll start_col s (place mll start_col (next_word_len (string st)) st) \<and>
         layout_measure (place mll start_col (next_word_len (string st)) st)
           < 2 * length (string st) + n"
proof -
  define wl where "wl = next_word_len (string st)"
  have wl: "0 < wl" using ne by (simp add: wl_def next_word_len_pos)
  note w = next_word_len_word [OF ne, folded wl_def]
  let ?w = "take wl (string st)" and ?r = "drop wl (string st)"
  show ?thesis
  proof (cases "overflows mll wl st")
    case False
    then have fit: "col st + int wl \<le> mll" by (simp add: overflows_def Let_def)
    have st': "place mll start_col wl st =
                 st\<lparr>sink := sink st @ ?w, string := ?r, col := col st + int wl\<rparr>"
      using False by (simp add: place_def)
    have "lines_ok mll (sink st @ ?w) (col st + int (length ?w))"
      using w fit by (intro lines_ok_plain [OF lo]) simp_all
    moreover have "length ?w = wl" using w(1) by simp
    moreover have "para s (?w @ ?r) False (indentation st)"
      using pa by simp
    then have "para s ?r False (indentation st)"
      using w(3) by (rule para_consume)
    ultimately show ?thesis
      using rm lb wl w(1) ne unfolding wl_def [symmetric] st' layout_inv_def layout_measure_def
      by simp arith
  next
    case True
    then have ov: "mll - col st < int wl" by (simp add: overflows_def Let_def)
    show ?thesis
    proof (cases "at_line_start start_col st")
      case als: True
      define r where "r = nat (mll - col st)"
      from als sc rm have pos: "0 < mll - col st"
        by (auto simp: at_line_start_def)
      with ov have r: "0 < r" "r < wl" "int r = mll - col st" by (simp_all add: r_def)
      have st': "place mll start_col wl st =
                   st\<lparr>sink := sink st @ take r (string st) @ [CHR 0x0A],
                      string := drop r (string st), col := 0\<rparr>"
        using True als pos by (simp add: place_def slice_to_def slice_from_def r_def)
      have sub: "set (take r (string st)) \<subseteq> set ?w"
        using r(2) by (intro set_take_subset_set_take) simp
      with w(3) have nonl: "CHR 0x0A \<notin> set (take r (string st))" by auto
      have lr: "length (take r (string st)) = r" using r(2) w(1) by simp
      have "lines_ok mll (sink st @ take r (string st)) (col st + int (length (take r (string st))))"
        using r(3) lr by (intro lines_ok_plain [OF lo nonl]) simp
      then have "lines_ok mll ((sink st @ take r (string st)) @ [CHR 0x0A]) 0"
        by (rule lines_ok_newline)
      moreover have "para s (take r (string st) @ drop r (string st)) False (indentation st)"
        using pa by simp
      then have "para s (drop r (string st)) False (indentation st)"
        using nonl by (rule para_consume)
      moreover have "length (drop r (string st)) < length (string st)"
        using r(1) ne by simp
      ultimately show ?thesis
        using rm lb unfolding wl_def [symmetric] st' layout_inv_def layout_measure_def
        by simp
    next
      case nals: False
      with start have n: "n = 1" by simp
      have st': "place mll start_col wl st = st\<lparr>sink := sink st @ [CHR 0x0A], col := 0\<rparr>"
        using True nals by (simp add: place_def)
      from lines_ok_newline [OF lo] pa rm lb n show ?thesis
        unfolding wl_def [symmetric] st' layout_inv_def layout_measure_def
        by simp
    qed
  qed
qed

lemma layout_inv_step:
  assumes sc: "0 \<le> start_col" "start_col < mll"
    and room: "\<forall>k\<in>set (indents s). start_col + int k < mll"
    and inv: "layout_inv mll start_col s st"
    and step: "block_step mll start_col st = Inr st'"
  shows "layout_inv mll start_col s st' \<and> layout_measure st' < layout_measure st"
proof -
  from inv have lo: "lines_ok mll (sink st) (col st)"
    and rm: "start_col + int (indentation st) < mll"
    and pa: "para s (string st) (linebreak_encountered st) (indentation st)"
    and lbc: "linebreak_encountered st \<longrightarrow> col st = 0"
    by (simp_all add: layout_inv_def)
  from step have ne: "string st \<noteq> []"
    by (auto simp: block_step_def Let_def split: if_splits)
  then obtain c cs where s: "string st = c # cs" by (cases "string st") auto
  show ?thesis
  proof (cases "c = CHR 0x0A")
    case True
    with step s have st': "st' = st\<lparr>sink := sink st @ [CHR 0x0A], col := 0, string := cs,
                linebreak_encountered := True, indentation := 0\<rparr>"
      by (auto simp: block_step_def Let_def)
    from pa s True have "para s cs True 0" by (auto intro: para_newline)
    with lines_ok_newline [OF lo] sc show ?thesis
      by (simp add: st' layout_inv_def layout_measure_def s)
  next
    case False
    then have c: "string st ! 0 \<noteq> CHR 0x0A" using s by simp
    show ?thesis
    proof (cases "col st = 0")
      case coln: False
      with lbc have lbf: "\<not> linebreak_encountered st" by auto
      from step coln c ne
      have st': "st' = place mll start_col (next_word_len (string st)) st"
        by (simp add: block_step_def Let_def)
      from layout_inv_place [OF sc ne c lo rm _ lbf, of s 1] pa lbf coln show ?thesis
        by (simp add: st' layout_measure_def)
    next
      case col0: True
      define ci where "ci = start_col + (if indentation st \<noteq> 0 then int (indentation st) else 0)"
      define si where "si = sink st @ spaces start_col @
                             (if indentation st \<noteq> 0 then spaces (int (indentation st)) else [])"
      have a: "lines_ok mll (sink st @ spaces start_col) (0 + start_col)"
        using lines_ok_spaces [of mll "sink st" 0 start_col] lo col0 sc by simp
      have b: "lines_ok mll ((sink st @ spaces start_col) @ spaces (int (indentation st)))
                   (0 + start_col + int (indentation st))"
        using lines_ok_spaces [OF a, of "int (indentation st)"] rm by simp
      from a b have loi: "lines_ok mll si ci"
        by (simp add: si_def ci_def)
      show ?thesis
      proof (cases "c = CHR '' '' \<and> \<not> linebreak_encountered st")
        case True
        with step s False col0 have st': "st' = st\<lparr>col := ci, sink := si, string := cs\<rparr>"
          by (auto simp: block_step_def line_start_def Let_def ci_def si_def)
        have "para s ([CHR '' ''] @ cs) False (indentation st)"
          using pa True s by simp
        then have "para s cs False (indentation st)"
          by (rule para_consume) simp
        with loi rm True show ?thesis
          by (simp add: st' layout_inv_def layout_measure_def s)
      next
        case nc: False
        define ind where "ind = (if c = CHR '' '' then get_indent (string st) else indentation st)"
        define st1 where "st1 = st\<lparr>col := ci, sink := si, indentation := ind,
                                     linebreak_encountered := False\<rparr>"
        from nc s have ls: "line_start start_col st = Fall_through st1"
          by (auto simp: line_start_def Let_def st1_def ci_def si_def ind_def)
        from nc s have "ind = (if linebreak_encountered st \<and> hd (string st) = CHR '' ''
                               then get_indent (string st) else indentation st)"
          by (auto simp: ind_def)
        with para_fall [OF pa ne] have pa1: "para s (string st) False ind" by simp
        from para_room [OF pa1 room sc(2)] have rm1: "start_col + int ind < mll" .
        have als: "at_line_start start_col st1"
          using nc para_not_lb [OF pa] by (auto simp: at_line_start_def st1_def ci_def ind_def)
        from step ls col0 c ne
        have st': "st' = place mll start_col (next_word_len (string st1)) st1"
          by (simp add: block_step_def Let_def st1_def)
        have "layout_inv mll start_col s (place mll start_col (next_word_len (string st1)) st1) \<and>
              layout_measure (place mll start_col (next_word_len (string st1)) st1)
                < 2 * length (string st1) + 0"
          using ne c loi rm1 pa1 als
          by (intro layout_inv_place [OF sc]) (simp_all add: st1_def)
        with col0 show ?thesis
          by (simp add: st' layout_measure_def st1_def)
      qed
    qed
  qed
qed

lemma layout_inv_visits:
  assumes sc: "0 \<le> start_col" "start_col < mll"
    and room: "\<forall>k\<in>set (indents s). start_col + int k < mll"
  shows "visits mll start_col st st' \<Longrightarrow> layout_inv mll start_col s st \<Longrightarrow>
         layout_inv mll start_col s st'"
proof (induction rule: visits.induct)
  case (visits_here st)
  then show ?case .
next
  case (visits_next st st1 st2)
  from layout_inv_step [OF sc room visits_next.prems visits_next.hyps(1)] visits_next.IH
  show ?case by simp
qed

lemma block_loop_lines:
  assumes sc: "0 \<le> start_col" "start_col < mll"
    and room: "\<forall>k\<in>set (indents s). start_col + int k < mll"
  shows "layout_inv mll start_col s st \<Longrightarrow>
         \<exists>out. block_loop mll start_col st = Some out \<and>
               (\<forall>l\<in>set (lines_of out). int (length l) \<le> mll)"
proof (induction "layout_measure st" arbitrary: st rule: less_induct)
  case less
  show ?case
  proof (cases "block_step mll start_col st")
    case (Inl res)
    then have res: "res = sink st @ [CHR 0x0A]"
      by (auto simp: block_step_def Let_def split: if_splits flow.splits)
    from less.prems have "lines_ok mll (sink st) (col st)"
      by (simp add: layout_inv_def)
    from lines_ok_newline [OF this] have "\<forall>l\<in>set (lines_of res). int (length l) \<le> mll"
      by (simp add: res lines_ok_def)
    with Inl show ?thesis
      by (subst block_loop.simps) simp
  next
    case (Inr st1)
    from layout_inv_step [OF sc room less.prems Inr]
    have inv: "layout_inv mll start_col s st1" and m: "layout_measure st1 < layout_measure st"
      by simp_all
    from less.hyps [OF m inv] Inr show ?thesis
      by (subst block_loop.simps) simp
  qed
qed

lemma last_newline_unique:
  assumes "CHR 0x0A \<notin> set q" and "CHR 0x0A \<notin> set q'"
    and "p @ CHR 0x0A # q = p' @ CHR 0x0A # q'"
  shows "q = q'"
proof -
  have "rev q @ CHR 0x0A # rev p = rev q' @ CHR 0x0A # rev p'"
    using arg_cong [OF assms(3), of rev] by simp
  moreover have "takeWhile (\<lambda>c. c \<noteq> CHR 0x0A) (rev q @ CHR 0x0A # rev p) = rev q"
    using assms(1) by (subst takeWhile_tail) auto
  moreover have "takeWhile (\<lambda>c. c \<noteq> CHR 0x0A) (rev q' @ CHR 0x0A # rev p') = rev q'"
    using assms(2) by (subst takeWhile_tail) auto
  ultimately have "rev q = rev q'" by simp
  then show ?thesis by simp
qed

lemma para_measured:
  assumes "para s txt False ind" and "s = p @ CHR 0x0A # q @ txt" and "CHR 0x0A \<notin> set q"
  shows "ind = measured (q @ txt)"
proof -
  from assms(1) obtain q0 where q0: "CHR 0x0A \<notin> set q0"
    and d: "s = q0 @ txt \<or> (\<exists>p0. s = p0 @ CHR 0x0A # q0 @ txt \<and> ind = measured (q0 @ txt))"
    unfolding para_def by auto
  from d show ?thesis
  proof
    assume "s = q0 @ txt"
    with assms(2) have "q0 @ txt = (p @ CHR 0x0A # q) @ txt" by simp
    then have "q0 = p @ CHR 0x0A # q" by (simp only: append_same_eq)
    with q0 show ?thesis by simp
  next
    assume "\<exists>p0. s = p0 @ CHR 0x0A # q0 @ txt \<and> ind = measured (q0 @ txt)"
    then obtain p0 where p0: "s = p0 @ CHR 0x0A # q0 @ txt" "ind = measured (q0 @ txt)"
      by blast
    with assms(2) have "(p0 @ CHR 0x0A # q0) @ txt = (p @ CHR 0x0A # q) @ txt" by simp
    then have "p0 @ CHR 0x0A # q0 = p @ CHR 0x0A # q" by (simp only: append_same_eq)
    from last_newline_unique [OF q0 assms(3) this] p0(2) show ?thesis by simp
  qed
qed

lemma spaces_add: "0 \<le> a \<Longrightarrow> 0 \<le> b \<Longrightarrow> spaces a @ spaces b = spaces (a + b)"
  by (simp add: spaces_def nat_add_distrib replicate_add)

lemma spaces_add_app:
  "0 \<le> a \<Longrightarrow> 0 \<le> b \<Longrightarrow> spaces a @ spaces b @ y = spaces (a + b) @ y"
  using spaces_add [of a b] by (metis append_assoc)

lemma continuation_line:
  assumes sc: "0 \<le> start_col"
    and st: "col st = 0" "\<not> linebreak_encountered st" "string st \<noteq> []"
      "string st ! 0 \<noteq> CHR 0x0A"
  shows "\<exists>st1 x. block_step mll start_col st = Inr st1 \<and>
           sink st1 = sink st @ spaces (start_col + int (indentation st)) @ x"
proof -
  note sp = spaces_add_app [OF sc, of "int (indentation st)", simplified]
  show ?thesis
  proof (cases "string st ! 0 = CHR '' ''")
    case True
    with st show ?thesis
      by (auto simp: block_step_def line_start_def Let_def sp intro: exI [of _ "[]"])
  next
    case False
    with st show ?thesis
      by (auto simp: block_step_def line_start_def place_def Let_def sp)
  qed
qed

text \<open>
  \<open>get_indent\<close> on a bulleted line: the position of the first character after the bullet
  and the spaces that follow it.
\<close>

lemma get_indent_loop_spaces:
  "get_indent_loop (pre @ replicate k (CHR '' '') @ rest) (length pre) bp =
   get_indent_loop (pre @ replicate k (CHR '' '') @ rest) (length pre + k) bp"
proof (induction k arbitrary: pre)
  case 0
  show ?case by simp
next
  case (Suc k)
  let ?s = "pre @ replicate (Suc k) (CHR '' '') @ rest"
  have "get_indent_loop ?s (length pre) bp = get_indent_loop ?s (length pre + 1) bp"
    by (subst get_indent_loop.simps) (simp add: nth_append)
  also have "\<dots> = get_indent_loop ((pre @ [CHR '' '']) @ replicate k (CHR '' '') @ rest)
                       (length (pre @ [CHR '' ''])) bp"
    by simp
  also have "\<dots> = get_indent_loop ((pre @ [CHR '' '']) @ replicate k (CHR '' '') @ rest)
                       (length (pre @ [CHR '' '']) + k) bp"
    by (rule Suc.IH)
  finally show ?case by simp
qed

lemma get_indent_bullet:
  assumes b: "b = CHR ''-'' \<or> b = CHR ''*''" and c: "c \<noteq> CHR '' ''"
  shows "get_indent (replicate n (CHR '' '') @ b # CHR '' '' # replicate m (CHR '' '') @ c # r)
           = n + 2 + m"
proof -
  let ?s = "replicate n (CHR '' '') @ b # CHR '' '' # replicate m (CHR '' '') @ c # r"
  have "get_indent ?s = get_indent_loop ?s n False"
    using get_indent_loop_spaces [of "[]" n _ False] by (simp add: get_indent_def)
  also have "\<dots> = get_indent_loop ?s (n + 1) True"
    using b by (subst get_indent_loop.simps) (auto simp: nth_append)
  also have "\<dots> = get_indent_loop
      ((replicate n (CHR '' '') @ [b]) @ replicate (Suc m) (CHR '' '') @ c # r)
      (length (replicate n (CHR '' '') @ [b])) True"
    by simp
  also have "\<dots> = get_indent_loop
      ((replicate n (CHR '' '') @ [b]) @ replicate (Suc m) (CHR '' '') @ c # r)
      (length (replicate n (CHR '' '') @ [b]) + Suc m) True"
    by (rule get_indent_loop_spaces)
  also have "\<dots> = n + 2 + m"
    using c by (subst get_indent_loop.simps) (simp add: nth_append)
  finally show ?thesis .
qed

lemma visits_iff:
  "visits mll start_col st st' \<longleftrightarrow>
     st' = st \<or> (case block_step mll start_col st of
                   Inl res \<Rightarrow> False
                 | Inr st1 \<Rightarrow> visits mll start_col st1 st')"
proof (cases "block_step mll start_col st")
  case (Inl res)
  have "visits mll start_col st st' \<Longrightarrow> st' = st"
    by (erule visits.cases) (use Inl in auto)
  with Inl show ?thesis by (auto intro: visits_here)
next
  case (Inr st1)
  have "visits mll start_col st st' \<Longrightarrow> st' = st \<or> visits mll start_col st1 st'"
    by (erule visits.cases) (use Inr in auto)
  with Inr show ?thesis by (auto intro: visits_here visits_next)
qed

text \<open>
  Claim C8 says that no line of the help screen is longer than \<open>MAX_LINE_LENGTH\<close>, and that
  every continuation line of a bulleted description line is indented at least to the
  bullet's content. At 20 columns the usage line of the command above has 34 characters and
  the fragment of \<open>-c\<close> has 21: neither is wrapped. And a bullet that does not follow a
  space is not measured: the continuation line \<open>three\<close> starts at column 0, the content
  \<open>one\<close> of its bullet at column 2.
\<close>

theorem C8_counterexample:
  "print_help 20 demo [] =
     Some (None,
       ''Usage: prog [OPTION...] OPERAND...'' @ [CHR 0x0A] @ [CHR 0x0A] @
       ''Options:'' @ [CHR 0x0A] @
       ''  -a, --all  Select'' @ [CHR 0x0A] @
       ''        all.'' @ [CHR 0x0A] @
       ''  -b    Be brief.'' @ [CHR 0x0A] @
       ''  -c, --config FILE  '' @ [CHR 0x0A] @
       ''        Read FILE.'' @ [CHR 0x0A]) \<and>
   MAX_LINE_LENGTH 20 = 20 \<and>
   length ''Usage: prog [OPTION...] OPERAND...'' = 34 \<and>
   length ''  -c, --config FILE  '' = 21 \<and>
   print_block 10 (CHR 0x0A # ''- one two three'') 0 0 [] =
     Some ([CHR 0x0A] @ ''- one two'' @ [CHR 0x0A] @ ''three'' @ [CHR 0x0A])"
  by code_simp

text \<open>
  Claim C8, amended, for every call \<open>print_block(s, start_col, indent, file)\<close> (the manual
  and every option description are written by such a call; the usage line and the fragments
  are written as they are). Let the column wrapped lines start at (the smaller of
  \<open>start_col\<close> and \<open>indent\<close>) be at least 0 and less than the width, let the text written
  before have no line longer than the width and end in a line of \<open>start_col\<close> characters,
  and let every indentation measured in \<open>s\<close>, added to that column, be less than the width.
  Then the call returns and no line of what is written is longer than the width. Every
  wrapped continuation line (an iteration at column 0 that no explicit line break precedes)
  starts on an empty line with that column plus the carried indentation in spaces, and the
  carried indentation is what \<open>get_indent\<close> gives on the source line being continued, when
  that line follows an explicit line break and begins with a space. On a bulleted line
  (spaces, \<open>-\<close> or \<open>*\<close>, a space, more spaces, content) \<open>get_indent\<close> gives the position
  where the content starts.
\<close>

theorem C8_lines_and_indent:
  fixes mll start_col indent :: int and s f :: string
  defines "sc \<equiv> (if start_col > indent then indent else start_col)"
  defines "st0 \<equiv> \<lparr>string = s, col = start_col, linebreak_encountered = False,
                   indentation = 0, sink = f\<rparr>"
  assumes sc: "0 \<le> sc" "sc < mll" and start: "start_col \<le> mll"
    and f: "\<forall>l\<in>set (lines_of f). int (length l) \<le> mll"
      "int (length (last (lines_of f))) = start_col"
    and room: "\<forall>k\<in>set (indents s). sc + int k < mll"
  shows "(\<exists>out. print_block mll s start_col indent f = Some out \<and>
            (\<forall>l\<in>set (lines_of out). int (length l) \<le> mll)) \<and>
         (\<forall>st. visits mll sc st0 st \<and> col st = 0 \<and> \<not> linebreak_encountered st \<and>
               string st \<noteq> [] \<and> string st ! 0 \<noteq> CHR 0x0A \<longrightarrow>
            (\<exists>st1 x. block_step mll sc st = Inr st1 \<and>
                      sink st1 = sink st @ spaces (sc + int (indentation st)) @ x) \<and>
            last (lines_of (sink st)) = [] \<and>
            (\<forall>p t q. s = p @ CHR 0x0A # t \<and> t = q @ string st \<and> CHR 0x0A \<notin> set q \<and>
                     t \<noteq> [] \<and> hd t = CHR '' '' \<longrightarrow> indentation st = get_indent t)) \<and>
         ((b = CHR ''-'' \<or> b = CHR ''*'') \<and> c \<noteq> CHR '' '' \<longrightarrow>
            get_indent (replicate n (CHR '' '') @ b # CHR '' '' # replicate m (CHR '' '') @ c # r)
              = n + 2 + m)"
proof -
  have "0 \<le> start_col" using sc(1) by (simp add: sc_def split: if_splits)
  with start f sc(2) have inv0: "layout_inv mll sc s st0"
    unfolding layout_inv_def lines_ok_def para_def st0_def
    by (auto intro: exI [of _ "[]"])
  have 1: "\<exists>out. print_block mll s start_col indent f = Some out \<and>
            (\<forall>l\<in>set (lines_of out). int (length l) \<le> mll)"
    using block_loop_lines [OF sc room inv0] by (simp add: print_block_def sc_def st0_def)
  have 2: "(\<exists>st1 x. block_step mll sc st = Inr st1 \<and>
                      sink st1 = sink st @ spaces (sc + int (indentation st)) @ x) \<and>
            last (lines_of (sink st)) = [] \<and>
            (\<forall>p t q. s = p @ CHR 0x0A # t \<and> t = q @ string st \<and> CHR 0x0A \<notin> set q \<and>
                     t \<noteq> [] \<and> hd t = CHR '' '' \<longrightarrow> indentation st = get_indent t)"
    if v: "visits mll sc st0 st" and st: "col st = 0" "\<not> linebreak_encountered st"
      "string st \<noteq> []" "string st ! 0 \<noteq> CHR 0x0A" for st
  proof -
    have inv: "layout_inv mll sc s st"
      by (rule layout_inv_visits [OF sc room v inv0])
    then have "int (length (last (lines_of (sink st)))) = col st"
      and pa: "para s (string st) False (indentation st)"
      using st(2) by (simp_all add: layout_inv_def lines_ok_def)
    with st(1) have "last (lines_of (sink st)) = []" by simp
    moreover have "indentation st = get_indent t"
      if "s = p @ CHR 0x0A # t \<and> t = q @ string st \<and> CHR 0x0A \<notin> set q \<and>
          t \<noteq> [] \<and> hd t = CHR '' ''" for p t q
    proof -
      from that have a: "s = p @ CHR 0x0A # q @ string st" "CHR 0x0A \<notin> set q"
        "q @ string st \<noteq> []" "hd (q @ string st) = CHR '' ''" "t = q @ string st"
        by auto
      from para_measured [OF pa a(1,2)] a(3,4,5) show ?thesis
        by (simp add: measured_def)
    qed
    ultimately show ?thesis
      using continuation_line [OF sc(1) st, of mll] by blast
  qed
  from 1 2 get_indent_bullet [of b c n m r] show ?thesis by blast
qed

text \<open>
  The amended claim at 12 columns for a bulleted line after a line break: the continuation
  line \<open>three\<close> starts with three spaces, under the content \<open>one\<close> of the bullet.
\<close>

theorem C8_lines_and_indent_witness:
  "print_block 12 (CHR 0x0A # '' - one two three'') 0 0 [] =
     Some ([CHR 0x0A] @ '' - one two'' @ [CHR 0x0A] @ ''   three'' @ [CHR 0x0A]) \<and>
   list_all (\<lambda>l. int (length l) \<le> 12)
     (lines_of ([CHR 0x0A] @ '' - one two'' @ [CHR 0x0A] @ ''   three'' @ [CHR 0x0A])) \<and>
   visits 12 0
     \<lparr>string = CHR 0x0A # '' - one two three'', col = 0, linebreak_encountered = False,
      indentation = 0, sink = []\<rparr>
     \<lparr>string = '' three'', col = 0, linebreak_encountered = False,
      indentation = 3, sink = [CHR 0x0A] @ '' - one two'' @ [CHR 0x0A]\<rparr> \<and>
   (\<exists>st1 x. block_step 12 0
               \<lparr>string = '' three'', col = 0, linebreak_encountered = False,
                indentation = 3, sink = [CHR 0x0A] @ '' - one two'' @ [CHR 0x0A]\<rparr> = Inr st1 \<and>
             sink st1 = ([CHR 0x0A] @ '' - one two'' @ [CHR 0x0A]) @ spaces 3 @ x) \<and>
   get_indent '' - one two three'' = 3"
proof -
  let ?s = "CHR 0x0A # '' - one two three''"
  let ?ini = "\<lparr>string = ?s, col = 0, linebreak_encountered = False,
               indentation = 0, sink = []\<rparr>"
  let ?cont = "\<lparr>string = '' three'', col = 0, linebreak_encountered = False,
              indentation = 3, sink = [CHR 0x0A] @ '' - one two'' @ [CHR 0x0A]\<rparr>"
  let ?out = "[CHR 0x0A] @ '' - one two'' @ [CHR 0x0A] @ ''   three'' @ [CHR 0x0A]"
  have out: "print_block 12 ?s 0 0 [] = Some ?out"
    by code_simp
  have ind: "indents ?s = [get_indent '' - one two three'']"
    by simp
  note inst = C8_lines_and_indent [where start_col = 0 and indent = 0 and mll = 12
      and f = "[]" and s = ?s and b = "CHR ''-''" and c = "CHR ''o''" and n = 1 and m = 0
      and r = "''ne two three''"]
  have g: "get_indent '' - one two three'' = 3"
    by code_simp
  have hyps: "(0::int) \<le> (if (0::int) > 0 then 0 else 0)" "(if (0::int) > 0 then 0 else 0) < (12::int)"
    "(0::int) \<le> 12" "\<forall>l\<in>set (lines_of []). int (length l) \<le> 12"
    "int (length (last (lines_of []))) = 0"
    "\<forall>k\<in>set (indents ?s). (if (0::int) > 0 then 0 else 0) + int k < 12"
    by (simp_all add: lines_of_def ind g)
  note concl = inst [OF hyps]
  from concl out have w: "list_all (\<lambda>l. int (length l) \<le> 12) (lines_of ?out)"
    by (simp add: list_all_iff)
  have v: "visits 12 0 ?ini ?cont"
    by (simp add: visits_iff block_step_def line_start_def place_def overflows_def
                  at_line_start_def next_word_len_def g spaces_def Let_def)
  have st: "col ?cont = 0 \<and> \<not> linebreak_encountered ?cont \<and> string ?cont \<noteq> [] \<and>
            string ?cont ! 0 \<noteq> CHR 0x0A"
    by simp
  from v have v': "visits 12 (if (0::int) > 0 then 0 else 0) ?ini ?cont"
    by simp
  note cont = concl [THEN conjunct2, THEN conjunct1, THEN spec, of ?cont, THEN mp,
      OF conjI [OF v' st], THEN conjunct1]
  then have c: "\<exists>st1 x. block_step 12 0 ?cont = Inr st1 \<and>
                 sink st1 = ([CHR 0x0A] @ '' - one two'' @ [CHR 0x0A]) @ spaces 3 @ x"
    by simp
  from out w v c g show ?thesis by blast
qed

end
